theory Spec2Isabelle
  imports Main
begin

section \<open>The useTracker hook of react-meteor-data\<close>

text \<open>
  The hook of \<^verbatim>\<open>packages/react-meteor-data/useTracker.js\<close> keeps a Tracker computation
  alive for one component instance. Its mutable \<^verbatim>\<open>refs\<close> object, the counters of the
  host runtime (re-render requests, timers) and of the reactive engine (computations
  created and stopped) form one state record; every closure of the source is a function
  from states to an outcome and a new state. A JavaScript exception leaves the mutations
  made before it in place, so a throwing call returns \<open>Thrown e\<close> together with the state
  reached at the throw.

  The types leave out what the development-mode wrapper (lines 165 to 187) only warns
  about: \<open>reactiveFn\<close> is a function, and the computation handler is a function or
  absent. \<^verbatim>\<open>Tracker.nonreactive\<close> only detaches the new computation from an enclosing
  one, and no enclosing computation is part of the state.
\<close>

subsection \<open>Values of the source\<close>

datatype exn = TypeError | UserError nat

datatype outcome = Done | Thrown exn

text \<open>
  The second argument of the hook: \<^verbatim>\<open>undefined\<close>, \<^verbatim>\<open>null\<close>, a value for which
  \<^verbatim>\<open>Array.isArray\<close> is false, or an array of identity-compared keys.
\<close>

datatype deps = Undefined | Null | NotArray | Array "nat list"

text \<open>
  A computation object as a callback sees it: its identity and its \<^verbatim>\<open>firstRun\<close> field.
\<close>

datatype handle = Handle (hid: nat) (firstRun: bool)

text \<open>
  A truthy value returned by \<^verbatim>\<open>computationHandler\<close>: a function that returns normally
  (\<open>CleanupFn None\<close>) or throws (\<open>CleanupFn (Some e)\<close>) when it is called, or a truthy value
  that is not a function, the call of which is a \<^verbatim>\<open>TypeError\<close>.
\<close>

datatype cleanupHandler = CleanupFn "exn option" | NotCallable

text \<open>
  The arguments of one call of the hook. \<^verbatim>\<open>reactiveFn\<close> reads the computation it is given
  and the reactive data source, and returns a value or throws. \<^verbatim>\<open>computationHandler\<close>
  is absent or a function that throws, returns a falsy value (\<open>Inr None\<close>) or returns a
  truthy value.
\<close>

record ('d, 'v) props =
  reactiveFn :: "handle option \<Rightarrow> 'd \<Rightarrow> exn + 'v"
  deps :: deps
  computationHandler :: "(handle option \<Rightarrow> exn + cleanupHandler option) option"

text \<open>
  The globals the hook reads: \<^verbatim>\<open>Meteor.isServer\<close>, \<^verbatim>\<open>Meteor.isDevelopment\<close>, and the
  test of \<^verbatim>\<open>checkCursor\<close> (the value is a Mongo cursor, or a plain object with a cursor
  as a direct member, and the mongo package is present).
\<close>

record 'v meteor =
  isServer :: bool
  isDevelopment :: bool
  hasCursor :: "'v \<Rightarrow> bool"

text \<open>
  The state of one instance. First the fields of \<^verbatim>\<open>refs\<close>, with \<open>None\<close> for \<^verbatim>\<open>null\<close>,
  \<^verbatim>\<open>undefined\<close> and a deleted property; the computation in the slot is named by its
  number. Then what the host runtime keeps for the instance: the dependency list stored
  by \<^verbatim>\<open>useMemo\<close>, the effect closure of the latest render pass, whether the effect has
  run, whether its return value waits for the unmount, the re-render requests counted,
  the values the render passes returned, the exceptions that left the hook towards the
  host or the engine, and the exceptions raised inside the callbacks of the caller
  (\<open>reactiveFn\<close>, the computation handler, the cleanup callback), latest first. Then the
  engine: the number of the next computation, the closure each computation is bound to,
  and the \<open>stop\<close> calls received, latest first. Then the clock and the pending timers,
  each with its due time, and the calls of \<^verbatim>\<open>clearTimeout\<close>. Last the calls counted for
  each callback of the caller and for \<^verbatim>\<open>warn\<close>, and the reactive data source.
\<close>

record ('d, 'v) state =
  isMounted :: "bool option"
  doDeferredRender :: "bool option"
  computationCleanup :: "cleanupHandler option"
  computation :: "nat option"
  disposeId :: "nat option"
  trackerData :: "'v option"
  memoDeps :: "deps option"
  effectClosure :: "('d, 'v) props option"
  committed :: bool
  unmountAction :: bool
  forceUpdates :: nat
  rendered :: "'v option list"
  thrown :: "exn list"
  raised :: "exn list"
  nextComp :: nat
  closures :: "nat \<rightharpoonup> ('d, 'v) props"
  stopCalls :: "nat list"
  now :: nat
  nextTimer :: nat
  timers :: "(nat \<times> nat) list"
  clearCalls :: nat
  fnCalls :: nat
  handlerCalls :: nat
  cleanupCalls :: nat
  warnings :: nat
  source :: 'd

subsection \<open>The initial state\<close>

text \<open>
  \<^verbatim>\<open>useRef({ isMounted: null, doDeferredRender: false })\<close> and \<^verbatim>\<open>useReducer(fur, 0)\<close> on
  the first render of an instance; no computation, timer or call has happened yet.
\<close>

definition init :: "'d \<Rightarrow> ('d, 'v) state" where
  "init d =
     \<lparr>isMounted = None, doDeferredRender = Some False, computationCleanup = None,
      computation = None, disposeId = None, trackerData = None, memoDeps = None,
      effectClosure = None, committed = False, unmountAction = False, forceUpdates = 0,
      rendered = [], thrown = [], raised = [], nextComp = 0, closures = Map.empty, stopCalls = [],
      now = 0, nextTimer = 0, timers = [], clearCalls = 0, fnCalls = 0, handlerCalls = 0,
      cleanupCalls = 0, warnings = 0, source = d\<rparr>"

subsection \<open>Capabilities of the host runtime\<close>

text \<open>
  Modelled from the spec: the host runtime, which is not part of the repository, gives
  the hook a trigger that requests a re-render, timers that can be cancelled, and
  a primitive that runs a callback during render and again only when the identity of a
  dependency list changes.

  \<^verbatim>\<open>forceUpdate\<close>, the dispatch of \<^verbatim>\<open>useReducer(fur, 0)\<close> (lines 32 and 40): one
  re-render request.
\<close>

definition forceUpdate :: "('d, 'v) state \<Rightarrow> ('d, 'v) state" where
  "forceUpdate st = st\<lparr>forceUpdates := Suc (forceUpdates st)\<rparr>"

text \<open>
  \<^verbatim>\<open>refs.disposeId = setTimeout(cb, delay)\<close>: a new pending timer, due \<open>delay\<close> time units
  from now. The only callback the hook ever schedules is the leak guard, so a pending
  timer is its identifier and its due time.
\<close>

definition setTimeout :: "nat \<Rightarrow> ('d, 'v) state \<Rightarrow> ('d, 'v) state" where
  "setTimeout delay st =
     st\<lparr>disposeId := Some (nextTimer st),
        timers := timers st @ [(nextTimer st, now st + delay)],
        nextTimer := Suc (nextTimer st)\<rparr>"

text \<open>
  \<^verbatim>\<open>clearTimeout(id)\<close>: the timer is no longer pending; nothing happens for
  \<^verbatim>\<open>undefined\<close> or for a timer that has fired already.
\<close>

definition clearTimeout :: "nat option \<Rightarrow> ('d, 'v) state \<Rightarrow> ('d, 'v) state" where
  "clearTimeout tid st =
     st\<lparr>timers := filter (\<lambda>t. Some (fst t) \<noteq> tid) (timers st),
        clearCalls := Suc (clearCalls st)\<rparr>"

text \<open>
  The comparison of \<^verbatim>\<open>useMemo\<close>: the callback runs on the first render, whenever the
  new dependency list is \<^verbatim>\<open>undefined\<close> or \<^verbatim>\<open>null\<close>, and whenever a key differs from the
  stored one. A value that is not an array has no elements to differ.
\<close>

fun areHookInputsEqual :: "deps \<Rightarrow> deps \<Rightarrow> bool" where
  "areHookInputsEqual nextDeps Undefined = False"
| "areHookInputsEqual nextDeps Null = False"
| "areHookInputsEqual (Array xs) (Array ys) = (xs = ys)"
| "areHookInputsEqual nextDeps prevDeps = True"

definition memoRuns :: "deps option \<Rightarrow> deps \<Rightarrow> bool" where
  "memoRuns prev nextDeps =
     (case prev of
        None \<Rightarrow> True
      | Some prevDeps \<Rightarrow>
          nextDeps = Undefined \<or> nextDeps = Null \<or> \<not> areHookInputsEqual nextDeps prevDeps)"

definition isArray :: "deps \<Rightarrow> bool" where
  "isArray ds = (case ds of Array xs \<Rightarrow> True | _ \<Rightarrow> False)"

subsection \<open>The closures of the hook\<close>

definition callCleanup :: "cleanupHandler \<Rightarrow> exn option" where
  "callCleanup h = (case h of CleanupFn r \<Rightarrow> r | NotCallable \<Rightarrow> Some TypeError)"

text \<open>
  \<^verbatim>\<open>dispose\<close> (lines 42 to 51): the cleanup callback first, then the computation
  (\<open>stopComputation\<close>, lines 47 to 50). A cleanup that throws leaves its slot set and the
  computation untouched.
\<close>

definition stopComputation :: "('d, 'v) state \<Rightarrow> outcome \<times> ('d, 'v) state" where
  "stopComputation st =
     (case computation st of
        Some c \<Rightarrow> (Done, st\<lparr>stopCalls := c # stopCalls st, computation := None\<rparr>)
      | None \<Rightarrow> (Done, st))"

definition dispose :: "('d, 'v) state \<Rightarrow> outcome \<times> ('d, 'v) state" where
  "dispose st =
     (case computationCleanup st of
        Some h \<Rightarrow>
          (case callCleanup h of
             Some e \<Rightarrow>
               (Thrown e, st\<lparr>cleanupCalls := Suc (cleanupCalls st), raised := e # raised st\<rparr>)
           | None \<Rightarrow>
               stopComputation
                 (st\<lparr>cleanupCalls := Suc (cleanupCalls st), computationCleanup := None\<rparr>))
      | None \<Rightarrow> stopComputation st)"

text \<open>
  \<^verbatim>\<open>checkCursor\<close> (lines 8 to 28) only warns, and \<^verbatim>\<open>runReactiveFn\<close> (lines 53 to 57)
  stores what \<^verbatim>\<open>reactiveFn\<close> returns.
\<close>

definition checkCursor :: "'v meteor \<Rightarrow> 'v \<Rightarrow> ('d, 'v) state \<Rightarrow> ('d, 'v) state" where
  "checkCursor env data st =
     (if hasCursor env data then st\<lparr>warnings := Suc (warnings st)\<rparr> else st)"

definition runReactiveFn ::
  "'v meteor \<Rightarrow> ('d, 'v) props \<Rightarrow> handle option \<Rightarrow> ('d, 'v) state
     \<Rightarrow> outcome \<times> ('d, 'v) state" where
  "runReactiveFn env p c st =
     (let st1 = st\<lparr>fnCalls := Suc (fnCalls st)\<rparr> in
      case reactiveFn p c (source st) of
        Inl e \<Rightarrow> (Thrown e, st1\<lparr>raised := e # raised st1\<rparr>)
      | Inr data \<Rightarrow>
          (Done, (if isDevelopment env then checkCursor env data st1 else st1)
                   \<lparr>trackerData := Some data\<rparr>))"

text \<open>Lines 63 to 74: the computation handler and the cleanup it may return.\<close>

definition attachHandler ::
  "'v meteor \<Rightarrow> ('d, 'v) props \<Rightarrow> handle option \<Rightarrow> ('d, 'v) state
     \<Rightarrow> outcome \<times> ('d, 'v) state" where
  "attachHandler env p c st =
     (case computationHandler p of
        None \<Rightarrow> (Done, st)
      | Some h \<Rightarrow>
          (let st1 = st\<lparr>handlerCalls := Suc (handlerCalls st)\<rparr> in
           case h c of
             Inl e \<Rightarrow> (Thrown e, st1\<lparr>raised := e # raised st1\<rparr>)
           | Inr None \<Rightarrow> (Done, st1)
           | Inr (Some cleanupHandler) \<Rightarrow>
               (Done,
                (if isDevelopment env \<and> cleanupHandler = NotCallable
                 then st1\<lparr>warnings := Suc (warnings st1)\<rparr> else st1)
                  \<lparr>computationCleanup := Some cleanupHandler\<rparr>)))"

text \<open>
  \<^verbatim>\<open>tracked\<close> (lines 59 to 99), the callback of the computation. The first branch
  (lines 61 to 83) is taken for \<^verbatim>\<open>null\<close> and on the first run, the second (lines 85 to
  97) on every later run.
\<close>

definition trackedFirstRun ::
  "'v meteor \<Rightarrow> ('d, 'v) props \<Rightarrow> handle option \<Rightarrow> ('d, 'v) state
     \<Rightarrow> outcome \<times> ('d, 'v) state" where
  "trackedFirstRun env p c st =
     (case attachHandler env p c st of
        (Thrown e, st1) \<Rightarrow> (Thrown e, st1)
      | (Done, st1) \<Rightarrow>
          if isMounted st1 = Some False then (Done, st1)
          else runReactiveFn env p c
                 (if isMounted st1 = None then st1\<lparr>isMounted := Some False\<rparr> else st1))"

definition trackedRerun ::
  "'v meteor \<Rightarrow> ('d, 'v) props \<Rightarrow> handle option \<Rightarrow> ('d, 'v) state
     \<Rightarrow> outcome \<times> ('d, 'v) state" where
  "trackedRerun env p c st =
     (if \<not> isArray (deps p) then
        (case dispose st of
           (Thrown e, st1) \<Rightarrow> (Thrown e, st1)
         | (Done, st1) \<Rightarrow> (Done, forceUpdate st1))
      else if isMounted st = Some True then
        (case runReactiveFn env p c st of
           (Thrown e, st1) \<Rightarrow> (Thrown e, st1)
         | (Done, st1) \<Rightarrow> (Done, forceUpdate st1))
      else (Done, st\<lparr>doDeferredRender := Some True\<rparr>))"

definition tracked ::
  "'v meteor \<Rightarrow> ('d, 'v) props \<Rightarrow> handle option \<Rightarrow> ('d, 'v) state
     \<Rightarrow> outcome \<times> ('d, 'v) state" where
  "tracked env p c st =
     (case c of
        None \<Rightarrow> trackedFirstRun env p c st
      | Some h \<Rightarrow>
          if firstRun h then trackedFirstRun env p c st else trackedRerun env p c st)"

text \<open>
  Modelled from the spec: the reactive engine, which is not part of the repository,
  creates a computation bound to a callback that receives the handle and can ask whether
  this is the first run, and runs it once at creation.

  \<^verbatim>\<open>Tracker.nonreactive(() => Tracker.autorun(tracked))\<close>: the engine makes a new
  computation bound to this render's \<^verbatim>\<open>tracked\<close> and runs it once, synchronously, with
  \<^verbatim>\<open>firstRun\<close> set. An exception of the first run reaches the caller, so that the
  assignment of the handle does not happen, and the engine stops the computation whose
  first run has thrown, as \<^verbatim>\<open>Tracker.autorun\<close> does.
\<close>

definition autorun ::
  "'v meteor \<Rightarrow> ('d, 'v) props \<Rightarrow> ('d, 'v) state \<Rightarrow> (exn + nat) \<times> ('d, 'v) state" where
  "autorun env p st =
     (let c = nextComp st;
          st1 = st\<lparr>nextComp := Suc c, closures := (closures st)(c \<mapsto> p)\<rparr>
      in case tracked env p (Some (Handle c True)) st1 of
           (Thrown e, st2) \<Rightarrow> (Inl e, st2\<lparr>stopCalls := c # stopCalls st2\<rparr>)
         | (Done, st2) \<Rightarrow> (Inr c, st2))"

text \<open>The callback of the leak-guard timer (lines 124 to 128).\<close>

definition timeoutCallback :: "('d, 'v) state \<Rightarrow> outcome \<times> ('d, 'v) state" where
  "timeoutCallback st = (if isMounted st \<noteq> Some True then dispose st else (Done, st))"

text \<open>The callback given to \<^verbatim>\<open>useMemo\<close> (lines 102 to 131).\<close>

definition useMemoCallback ::
  "'v meteor \<Rightarrow> ('d, 'v) props \<Rightarrow> ('d, 'v) state \<Rightarrow> outcome \<times> ('d, 'v) state" where
  "useMemoCallback env p st =
     (case dispose st of
        (Thrown e, st1) \<Rightarrow> (Thrown e, st1)
      | (Done, st1) \<Rightarrow>
          if isServer env then tracked env p None (st1\<lparr>computation := None\<rparr>)
          else
            (case autorun env p st1 of
               (Inl e, st2) \<Rightarrow> (Thrown e, st2)
             | (Inr c, st2) \<Rightarrow>
                 (let st3 = st2\<lparr>computation := Some c\<rparr> in
                  if isMounted st3 \<noteq> Some True then (Done, setTimeout 50 st3)
                  else (Done, st3))))"

text \<open>
  The callback given to \<^verbatim>\<open>useEffect\<close> (lines 133 to 160), in its two blocks: the restart
  of a missing computation, and the replay of a deferred render.
\<close>

definition effectRestart ::
  "'v meteor \<Rightarrow> ('d, 'v) props \<Rightarrow> ('d, 'v) state \<Rightarrow> outcome \<times> ('d, 'v) state" where
  "effectRestart env p st =
     (if computation st = None then
        (if isArray (deps p) then
           (case autorun env p st of
              (Inl e, st1) \<Rightarrow> (Thrown e, st1)
            | (Inr c, st1) \<Rightarrow>
                (Done, st1\<lparr>computation := Some c, doDeferredRender := Some True\<rparr>))
         else (Done, st\<lparr>doDeferredRender := Some True\<rparr>))
      else (Done, st))"

definition effectReplay ::
  "'v meteor \<Rightarrow> ('d, 'v) props \<Rightarrow> ('d, 'v) state \<Rightarrow> outcome \<times> ('d, 'v) state" where
  "effectReplay env p st =
     (if doDeferredRender st = Some True then
        (case runReactiveFn env p (map_option (\<lambda>c. Handle c False) (computation st)) st of
           (Thrown e, st1) \<Rightarrow> (Thrown e, st1)
         | (Done, st1) \<Rightarrow> (Done, (forceUpdate st1)\<lparr>doDeferredRender := None\<rparr>))
      else (Done, st))"

definition useEffectCallback ::
  "'v meteor \<Rightarrow> ('d, 'v) props \<Rightarrow> ('d, 'v) state \<Rightarrow> outcome \<times> ('d, 'v) state" where
  "useEffectCallback env p st =
     (let st1 = st\<lparr>isMounted := Some True\<rparr> in
      if isServer env then (Done, st1)
      else
        (let st2 = (clearTimeout (disposeId st1) st1)\<lparr>disposeId := None\<rparr> in
         case effectRestart env p st2 of
           (Thrown e, st3) \<Rightarrow> (Thrown e, st3)
         | (Done, st3) \<Rightarrow> effectReplay env p st3))"

text \<open>
  One render pass of \<^verbatim>\<open>useTracker\<close>: \<^verbatim>\<open>useMemo\<close> runs its callback when the comparison
  says so and stores the dependency list once the callback has returned; the effect of
  this render is the one a first commit will run; the pass returns \<^verbatim>\<open>refs.trackerData\<close>.
\<close>

definition useTracker ::
  "'v meteor \<Rightarrow> ('d, 'v) props \<Rightarrow> ('d, 'v) state \<Rightarrow> (exn + 'v option) \<times> ('d, 'v) state" where
  "useTracker env p st =
     (if memoRuns (memoDeps st) (deps p) then
        (case useMemoCallback env p st of
           (Thrown e, st1) \<Rightarrow> (Inl e, st1)
         | (Done, st1) \<Rightarrow>
             (Inr (trackerData st1),
              st1\<lparr>memoDeps := Some (deps p),
                  effectClosure := (if committed st1 then effectClosure st1 else Some p)\<rparr>))
      else
        (Inr (trackerData st),
         st\<lparr>effectClosure := (if committed st then effectClosure st else Some p)\<rparr>))"

subsection \<open>The two schedulers that enter the hook\<close>

text \<open>
  Modelled from the spec: the two schedulers are not part of the repository. The host
  runs the effect once after the first commit and keeps the function it returns for the
  unmount; the engine calls the callback again on every invalidation.

  The host runtime renders, commits and unmounts, and its clock fires timers; the
  reactive engine re-runs computations. \<open>Pulse c\<close> calls the callback of computation
  \<open>c\<close> whether or not it has been stopped; \<open>Invalidate c\<close> is the engine keeping its own
  contract, which never re-runs a stopped computation. An exception that leaves the hook
  is recorded, and the state it left behind stays.
\<close>

datatype ('d, 'v) event =
    Render "('d, 'v) props"
  | Commit
  | Unmount
  | Pulse nat
  | Invalidate nat
  | Advance nat
  | SetSource 'd

definition caught :: "outcome \<times> ('d, 'v) state \<Rightarrow> ('d, 'v) state" where
  "caught r = (case r of (Done, st) \<Rightarrow> st | (Thrown e, st) \<Rightarrow> st\<lparr>thrown := e # thrown st\<rparr>)"

definition render :: "'v meteor \<Rightarrow> ('d, 'v) props \<Rightarrow> ('d, 'v) state \<Rightarrow> ('d, 'v) state" where
  "render env p st =
     (case useTracker env p st of
        (Inl e, st1) \<Rightarrow> st1\<lparr>thrown := e # thrown st1\<rparr>
      | (Inr v, st1) \<Rightarrow> st1\<lparr>rendered := v # rendered st1\<rparr>)"

text \<open>
  \<^verbatim>\<open>useEffect(f, [])\<close>: the effect of the committed render runs after the first commit
  only, and the function it returns is kept for the unmount.
\<close>

definition commit :: "'v meteor \<Rightarrow> ('d, 'v) state \<Rightarrow> ('d, 'v) state" where
  "commit env st =
     (case effectClosure st of
        None \<Rightarrow> st
      | Some p \<Rightarrow>
          if committed st then st
          else
            (case useEffectCallback env p (st\<lparr>committed := True\<rparr>) of
               (Thrown e, st1) \<Rightarrow> st1\<lparr>thrown := e # thrown st1\<rparr>
             | (Done, st1) \<Rightarrow> st1\<lparr>unmountAction := True\<rparr>))"

definition unmount :: "('d, 'v) state \<Rightarrow> ('d, 'v) state" where
  "unmount st =
     (if unmountAction st then caught (dispose (st\<lparr>unmountAction := False\<rparr>)) else st)"

definition pulse :: "'v meteor \<Rightarrow> nat \<Rightarrow> ('d, 'v) state \<Rightarrow> ('d, 'v) state" where
  "pulse env c st =
     (case closures st c of
        None \<Rightarrow> st
      | Some p \<Rightarrow> caught (tracked env p (Some (Handle c False)) st))"

definition invalidate :: "'v meteor \<Rightarrow> nat \<Rightarrow> ('d, 'v) state \<Rightarrow> ('d, 'v) state" where
  "invalidate env c st = (if c \<in> set (stopCalls st) then st else pulse env c st)"

text \<open>
  The clock moves on and every pending timer that is due fires, in the order of
  scheduling. The callbacks schedule and cancel nothing, so the timers pending at the
  start are the ones to look at.
\<close>

fun fireTimers :: "(nat \<times> nat) list \<Rightarrow> ('d, 'v) state \<Rightarrow> ('d, 'v) state" where
  "fireTimers [] st = st"
| "fireTimers (t # ts) st =
     (if snd t \<le> now st \<and> t \<in> set (timers st)
      then fireTimers ts
             (caught (timeoutCallback (st\<lparr>timers := filter (\<lambda>u. fst u \<noteq> fst t) (timers st)\<rparr>)))
      else fireTimers ts st)"

definition advance :: "nat \<Rightarrow> ('d, 'v) state \<Rightarrow> ('d, 'v) state" where
  "advance n st = (let st1 = st\<lparr>now := now st + n\<rparr> in fireTimers (timers st1) st1)"

fun step :: "'v meteor \<Rightarrow> ('d, 'v) event \<Rightarrow> ('d, 'v) state \<Rightarrow> ('d, 'v) state" where
  "step env (Render p) st = render env p st"
| "step env Commit st = commit env st"
| "step env Unmount st = unmount st"
| "step env (Pulse c) st = pulse env c st"
| "step env (Invalidate c) st = invalidate env c st"
| "step env (Advance n) st = advance n st"
| "step env (SetSource d) st = st\<lparr>source := d\<rparr>"

fun exec :: "'v meteor \<Rightarrow> ('d, 'v) event list \<Rightarrow> ('d, 'v) state \<Rightarrow> ('d, 'v) state" where
  "exec env [] st = st"
| "exec env (e # es) st = exec env es (step env e st)"

subsection \<open>Concrete instances\<close>

text \<open>
  A browser in development mode, a state that holds a cleanup callback and a
  computation, and the two hook calls used as examples below: a constant function called
  without dependency list, and a function that reads the data source, called with an
  array of keys and a handler that returns a cleanup callback.
\<close>

definition browser :: "int meteor" where
  "browser = \<lparr>isServer = False, isDevelopment = True, hasCursor = (\<lambda>v. False)\<rparr>"

definition busy :: "(int, int) state" where
  "busy = (init 0)\<lparr>computationCleanup := Some (CleanupFn None), computation := Some 7,
                    nextComp := 8\<rparr>"

definition constant42 :: "(int, int) props" where
  "constant42 =
     \<lparr>reactiveFn = (\<lambda>c d. Inr 42), deps = Undefined, computationHandler = None\<rparr>"

definition reader :: "nat list \<Rightarrow> (int, int) props" where
  "reader ks =
     \<lparr>reactiveFn = (\<lambda>c d. Inr d), deps = Array ks,
      computationHandler = Some (\<lambda>c. Inr (Some (CleanupFn None)))\<rparr>"

text \<open>
  Hook calls whose callbacks throw, and a state whose stored cleanup callback throws.
\<close>

definition failing :: "(int, int) props" where
  "failing =
     \<lparr>reactiveFn = (\<lambda>c d. Inl (UserError 1)), deps = Array [], computationHandler = None\<rparr>"

definition badHandler :: "(int, int) props" where
  "badHandler =
     \<lparr>reactiveFn = (\<lambda>c d. Inr d), deps = Undefined,
      computationHandler = Some (\<lambda>c. Inl (UserError 2))\<rparr>"

definition jammed :: "(int, int) state" where
  "jammed = (init 0)\<lparr>computationCleanup := Some (CleanupFn (Some (UserError 3))),
                      computation := Some 7, nextComp := 8, isMounted := Some True,
                      doDeferredRender := Some True, memoDeps := Some Undefined\<rparr>"

text \<open>
  A server, and a hook call whose handler returns a cleanup callback that throws.
\<close>

definition server :: "int meteor" where
  "server = \<lparr>isServer = True, isDevelopment = False, hasCursor = (\<lambda>v. False)\<rparr>"

definition leaky :: "(int, int) props" where
  "leaky =
     \<lparr>reactiveFn = (\<lambda>c d. Inr d), deps = Array [1],
      computationHandler = Some (\<lambda>c. Inr (Some (CleanupFn (Some (UserError 3)))))\<rparr>"

text \<open>
  The exception a closure leaves with is the one raised inside a callback of the caller
  during its run, and a closure that returns has seen none raised.
\<close>

definition outcomeOf :: "exn + 'a \<Rightarrow> outcome" where
  "outcomeOf r = (case r of Inl e \<Rightarrow> Thrown e | Inr x \<Rightarrow> Done)"

definition escapes :: "('d, 'v) state \<Rightarrow> outcome \<times> ('d, 'v) state \<Rightarrow> bool" where
  "escapes st r \<longleftrightarrow>
     raised (snd r) = (case fst r of Done \<Rightarrow> raised st | Thrown e \<Rightarrow> e # raised st)"

text \<open>Events other than a render pass.\<close>

definition notRender :: "('d, 'v) event \<Rightarrow> bool" where
  "notRender e = (case e of Render p \<Rightarrow> False | _ \<Rightarrow> True)"

text \<open>
  A render pass that recreates the computation in the browser while \<open>isMounted\<close> is
  not \<^verbatim>\<open>true\<close>, and the number of such passes in a sequence of events run from a state.
\<close>

definition schedules :: "'v meteor \<Rightarrow> ('d, 'v) event \<Rightarrow> ('d, 'v) state \<Rightarrow> bool" where
  "schedules env e st =
     (case e of
        Render p \<Rightarrow>
          \<not> isServer env \<and> isMounted st \<noteq> Some True \<and> memoRuns (memoDeps st) (deps p)
      | _ \<Rightarrow> False)"

fun recreations :: "'v meteor \<Rightarrow> ('d, 'v) event list \<Rightarrow> ('d, 'v) state \<Rightarrow> nat" where
  "recreations env [] st = 0"
| "recreations env (e # es) st =
     (if schedules env e st then 1 else 0) + recreations env es (step env e st)"

text \<open>
  The events that can reach an instance between a render pass and its commit: runs of
  the computation, the clock, changes of the data.
\<close>

definition preCommit :: "('d, 'v) event \<Rightarrow> bool" where
  "preCommit e =
     (case e of Pulse c \<Rightarrow> True | Invalidate c \<Rightarrow> True | Advance n \<Rightarrow> True
      | SetSource d \<Rightarrow> True | _ \<Rightarrow> False)"

text \<open>
  Callbacks that return: \<open>reactiveFn\<close> and the computation handler never throw; the
  cleanup callbacks the handler returns never throw either.
\<close>

definition neverThrows :: "('d, 'v) props \<Rightarrow> bool" where
  "neverThrows p \<longleftrightarrow>
     (\<forall>c d. \<exists>v. reactiveFn p c d = Inr v)
     \<and> (\<forall>h c. computationHandler p = Some h \<longrightarrow> (\<exists>r. h c = Inr r))"

definition cleanupReturns :: "('d, 'v) props \<Rightarrow> bool" where
  "cleanupReturns p \<longleftrightarrow>
     (\<forall>h c k. computationHandler p = Some h \<longrightarrow> h c = Inr (Some k) \<longrightarrow> callCleanup k = None)"

text \<open>
  The instance has rendered once with the closure \<open>p\<close> and waits for its commit: the
  first run has happened, nothing has been requested, every computation is bound to \<open>p\<close>.
\<close>

definition awaitingCommit :: "('d, 'v) props \<Rightarrow> ('d, 'v) state \<Rightarrow> bool" where
  "awaitingCommit p st \<longleftrightarrow>
     isMounted st = Some False \<and> \<not> committed st \<and> effectClosure st = Some p
     \<and> forceUpdates st = 0 \<and> fnCalls st = 1 \<and> closures st 0 = Some p
     \<and> (\<forall>c q. closures st c = Some q \<longrightarrow> q = p)"

text \<open>
  The events that can reach an instance whose render is never committed: everything but
  another render pass and the commit.
\<close>

definition abandoned :: "('d, 'v) event \<Rightarrow> bool" where
  "abandoned e = (case e of Render p \<Rightarrow> False | Commit \<Rightarrow> False | _ \<Rightarrow> True)"

text \<open>
  The computation of the first render pass is in the slot and its leak-guard timer,
  due at \<open>due\<close>, is pending and not yet due; or the computation has been stopped and the
  slot is empty. No other computation exists.
\<close>

definition disposedOnce :: "('d, 'v) props \<Rightarrow> ('d, 'v) state \<Rightarrow> bool" where
  "disposedOnce p st \<longleftrightarrow>
     isMounted st = Some False \<and> \<not> unmountAction st \<and> nextComp st = 1
     \<and> closures st = [0 \<mapsto> p] \<and> computationCleanup st = None
     \<and> computation st = None \<and> stopCalls st = [0]"

definition guarded :: "('d, 'v) props \<Rightarrow> nat \<Rightarrow> ('d, 'v) state \<Rightarrow> bool" where
  "guarded p due st \<longleftrightarrow>
     (isMounted st = Some False \<and> \<not> unmountAction st \<and> nextComp st = 1
      \<and> closures st = [0 \<mapsto> p]
      \<and> (\<forall>k. computationCleanup st = Some k \<longrightarrow> callCleanup k = None)
      \<and> computation st = Some 0 \<and> stopCalls st = []
      \<and> timers st = [(0, due)] \<and> now st < due)
     \<or> disposedOnce p st"


text \<open>Every computation ever created has received \<open>stop\<close>.\<close>

definition allStopped :: "('d, 'v) state \<Rightarrow> bool" where
  "allStopped st \<longleftrightarrow> (\<forall>c. closures st c \<noteq> None \<longrightarrow> c \<in> set (stopCalls st))"

text \<open>
  Every computation that has not received \<open>stop\<close> is the one in the slot; the stored
  cleanup callback, if any, returns.
\<close>

definition liveInSlot :: "('d, 'v) state \<Rightarrow> bool" where
  "liveInSlot st \<longleftrightarrow>
     (\<forall>c. closures st c \<noteq> None \<longrightarrow> c \<in> set (stopCalls st) \<or> computation st = Some c)"


text \<open>
  The instance has been unmounted: every computation has received \<open>stop\<close>, no unmount
  action is left, \<open>n\<close> re-renders have been requested and \<open>m\<close> computations created.
\<close>

definition unmounted :: "nat \<Rightarrow> nat \<Rightarrow> ('d, 'v) state \<Rightarrow> bool" where
  "unmounted n m st \<longleftrightarrow>
     allStopped st \<and> \<not> unmountAction st \<and> forceUpdates st = n \<and> nextComp st = m"

subsection \<open>Auxiliary notions\<close>

text \<open>
  The fields of the host runtime: timers, clock, the state of \<^verbatim>\<open>useMemo\<close> and
  \<^verbatim>\<open>useEffect\<close>, the values rendered, the exceptions recorded, the data source.
\<close>

definition hostSame :: "('d, 'v) state \<Rightarrow> ('d, 'v) state \<Rightarrow> bool" where
  "hostSame st st' \<longleftrightarrow>
     timers st' = timers st \<and> nextTimer st' = nextTimer st \<and> now st' = now st
     \<and> clearCalls st' = clearCalls st \<and> disposeId st' = disposeId st
     \<and> memoDeps st' = memoDeps st \<and> effectClosure st' = effectClosure st
     \<and> committed st' = committed st \<and> unmountAction st' = unmountAction st
     \<and> rendered st' = rendered st \<and> thrown st' = thrown st \<and> source st' = source st"

text \<open>The fields a first run of \<open>tracked\<close> never writes.\<close>

definition slotsSame :: "('d, 'v) state \<Rightarrow> ('d, 'v) state \<Rightarrow> bool" where
  "slotsSame st st' \<longleftrightarrow>
     computation st' = computation st \<and> stopCalls st' = stopCalls st
     \<and> cleanupCalls st' = cleanupCalls st \<and> nextComp st' = nextComp st
     \<and> closures st' = closures st \<and> forceUpdates st' = forceUpdates st
     \<and> doDeferredRender st' = doDeferredRender st"

section \<open>Properties\<close>

subsection \<open>Concrete evaluation\<close>

lemmas hook_defs =
  dispose_def stopComputation_def callCleanup_def runReactiveFn_def checkCursor_def
  attachHandler_def trackedFirstRun_def trackedRerun_def tracked_def autorun_def
  timeoutCallback_def useMemoCallback_def effectRestart_def effectReplay_def
  useEffectCallback_def useTracker_def forceUpdate_def setTimeout_def clearTimeout_def
  memoRuns_def isArray_def Let_def

lemmas event_defs =
  render_def commit_def unmount_def pulse_def invalidate_def advance_def caught_def

lemmas example_defs =
  init_def browser_def server_def busy_def constant42_def reader_def failing_def
  badHandler_def leaky_def jammed_def

subsection \<open>What each closure returns\<close>

lemma dispose_Done:
  assumes "fst (dispose st) = Done"
  shows "dispose st =
      (Done, st\<lparr>cleanupCalls := cleanupCalls st + (if computationCleanup st = None then 0 else 1),
               computationCleanup := None,
               stopCalls := (case computation st of None \<Rightarrow> stopCalls st
                             | Some c \<Rightarrow> c # stopCalls st),
               computation := None\<rparr>)"
  using assms
  by (auto simp: dispose_def stopComputation_def split: option.splits)

lemma dispose_Thrown:
  "computationCleanup st = Some k \<Longrightarrow> callCleanup k = Some e \<Longrightarrow>
   dispose st =
     (Thrown e, st\<lparr>cleanupCalls := Suc (cleanupCalls st), raised := e # raised st\<rparr>)"
  by (simp add: dispose_def)

lemma dispose_returns:
  "fst (dispose st) = Done \<longleftrightarrow> (\<forall>k. computationCleanup st = Some k \<longrightarrow> callCleanup k = None)"
  by (auto simp: dispose_def stopComputation_def split: option.splits)

lemma dispose_empty:
  "computationCleanup st = None \<Longrightarrow> computation st = None \<Longrightarrow> dispose st = (Done, st)"
  by (simp add: dispose_def stopComputation_def)

lemma attachHandler_None:
  "computationHandler p = None \<Longrightarrow> attachHandler env p c st = (Done, st)"
  by (simp add: attachHandler_def)

lemma attachHandler_Inr:
  "computationHandler p = Some h \<Longrightarrow> h c = Inr r \<Longrightarrow>
   attachHandler env p c st =
     (Done, st\<lparr>handlerCalls := Suc (handlerCalls st),
              warnings := (if isDevelopment env \<and> r = Some NotCallable
                           then Suc (warnings st) else warnings st),
              computationCleanup := (case r of None \<Rightarrow> computationCleanup st
                                     | Some k \<Rightarrow> Some k)\<rparr>)"
  by (cases r) (simp_all add: attachHandler_def Let_def)

lemma attachHandler_Inl:
  "computationHandler p = Some h \<Longrightarrow> h c = Inl e \<Longrightarrow>
   attachHandler env p c st =
     (Thrown e, st\<lparr>handlerCalls := Suc (handlerCalls st), raised := e # raised st\<rparr>)"
  by (simp add: attachHandler_def Let_def)

lemma runReactiveFn_Inr:
  "reactiveFn p c (source st) = Inr v \<Longrightarrow>
   runReactiveFn env p c st =
     (Done, st\<lparr>fnCalls := Suc (fnCalls st),
              warnings := (if isDevelopment env \<and> hasCursor env v
                           then Suc (warnings st) else warnings st),
              trackerData := Some v\<rparr>)"
  by (simp add: runReactiveFn_def checkCursor_def Let_def)

lemma runReactiveFn_Inl:
  "reactiveFn p c (source st) = Inl e \<Longrightarrow>
   runReactiveFn env p c st =
     (Thrown e, st\<lparr>fnCalls := Suc (fnCalls st), raised := e # raised st\<rparr>)"
  by (simp add: runReactiveFn_def)

subsection \<open>What each closure leaves alone\<close>

lemma hostSame_refl [simp]: "hostSame st st"
  by (simp add: hostSame_def)

lemma slotsSame_refl [simp]: "slotsSame st st"
  by (simp add: slotsSame_def)

lemma hostSame_update [simp]:
  "hostSame a (st\<lparr>isMounted := m\<rparr>) = hostSame a st"
  "hostSame a (st\<lparr>doDeferredRender := f\<rparr>) = hostSame a st"
  "hostSame a (st\<lparr>computation := c\<rparr>) = hostSame a st"
  "hostSame a (st\<lparr>nextComp := n\<rparr>) = hostSame a st"
  "hostSame a (st\<lparr>closures := cl\<rparr>) = hostSame a st"
  "hostSame a (st\<lparr>stopCalls := cs\<rparr>) = hostSame a st"
  "hostSame a (forceUpdate st) = hostSame a st"
  by (simp_all add: hostSame_def forceUpdate_def)

lemma slotsSame_update [simp]:
  "slotsSame a (st\<lparr>isMounted := m\<rparr>) = slotsSame a st"
  by (simp add: slotsSame_def)

lemma hostSame_dispose [simp]: "hostSame a st \<Longrightarrow> hostSame a (snd (dispose st))"
  by (simp add: hostSame_def dispose_def stopComputation_def split: option.splits)

lemma hostSame_runReactiveFn [simp]:
  "hostSame a st \<Longrightarrow> hostSame a (snd (runReactiveFn env p c st))"
  by (simp add: hostSame_def runReactiveFn_def checkCursor_def Let_def split: sum.splits)

lemma hostSame_attachHandler [simp]:
  "hostSame a st \<Longrightarrow> hostSame a (snd (attachHandler env p c st))"
  by (simp add: hostSame_def attachHandler_def Let_def split: option.splits sum.splits)

lemma hostSame_trackedFirstRun [simp]:
  "hostSame a st \<Longrightarrow> hostSame a (snd (trackedFirstRun env p c st))"
  by (simp add: trackedFirstRun_def case_prod_beta split: outcome.splits)

lemma hostSame_trackedRerun [simp]:
  "hostSame a st \<Longrightarrow> hostSame a (snd (trackedRerun env p c st))"
  by (simp add: trackedRerun_def case_prod_beta split: outcome.splits)

lemma hostSame_tracked [simp]: "hostSame a st \<Longrightarrow> hostSame a (snd (tracked env p c st))"
  by (simp add: tracked_def split: option.splits)

lemma hostSame_autorun [simp]: "hostSame a st \<Longrightarrow> hostSame a (snd (autorun env p st))"
  by (simp add: autorun_def Let_def case_prod_beta split: outcome.splits)

lemma hostSame_effectRestart [simp]:
  "hostSame a st \<Longrightarrow> hostSame a (snd (effectRestart env p st))"
  by (simp add: effectRestart_def case_prod_beta split: sum.splits)

lemma hostSame_effectReplay [simp]:
  "hostSame a st \<Longrightarrow> hostSame a (snd (effectReplay env p st))"
  by (simp add: effectReplay_def case_prod_beta split: outcome.splits)

lemma slotsSame_runReactiveFn [simp]:
  "slotsSame a st \<Longrightarrow> slotsSame a (snd (runReactiveFn env p c st))"
  by (simp add: slotsSame_def runReactiveFn_def checkCursor_def Let_def split: sum.splits)

lemma slotsSame_attachHandler [simp]:
  "slotsSame a st \<Longrightarrow> slotsSame a (snd (attachHandler env p c st))"
  by (simp add: slotsSame_def attachHandler_def Let_def split: option.splits sum.splits)

lemma slotsSame_trackedFirstRun [simp]:
  "slotsSame a st \<Longrightarrow> slotsSame a (snd (trackedFirstRun env p c st))"
  by (simp add: trackedFirstRun_def case_prod_beta split: outcome.splits)

lemma dispose_keeps [simp]:
  "isMounted (snd (dispose st)) = isMounted st"
  "doDeferredRender (snd (dispose st)) = doDeferredRender st"
  "trackerData (snd (dispose st)) = trackerData st"
  "forceUpdates (snd (dispose st)) = forceUpdates st"
  "nextComp (snd (dispose st)) = nextComp st"
  "closures (snd (dispose st)) = closures st"
  "fnCalls (snd (dispose st)) = fnCalls st"
  "handlerCalls (snd (dispose st)) = handlerCalls st"
  by (simp_all add: dispose_def stopComputation_def split: option.splits)

lemma autorun_engine [simp]:
  "nextComp (snd (autorun env p st)) = Suc (nextComp st)"
  "closures (snd (autorun env p st)) = (closures st)(nextComp st \<mapsto> p)"
  "forceUpdates (snd (autorun env p st)) = forceUpdates st"
  "doDeferredRender (snd (autorun env p st)) = doDeferredRender st"
  "computation (snd (autorun env p st)) = computation st"
  "stopCalls (snd (autorun env p st)) =
     (case fst (autorun env p st) of Inr c \<Rightarrow> stopCalls st
      | Inl e \<Rightarrow> nextComp st # stopCalls st)"
proof -
  let ?s = "st\<lparr>nextComp := Suc (nextComp st), closures := (closures st)(nextComp st \<mapsto> p)\<rparr>"
  let ?t = "snd (trackedFirstRun env p (Some (Handle (nextComp st) True)) ?s)"
  have s: "slotsSame ?s ?t"
    by simp
  have a: "snd (autorun env p st) =
             (case fst (autorun env p st) of Inr c \<Rightarrow> ?t
              | Inl e \<Rightarrow> ?t\<lparr>stopCalls := nextComp st # stopCalls ?t\<rparr>)"
    by (simp add: autorun_def tracked_def Let_def case_prod_beta split: outcome.splits)
  from s show "nextComp (snd (autorun env p st)) = Suc (nextComp st)"
    by (subst a) (simp add: slotsSame_def split: sum.splits)
  from s show "closures (snd (autorun env p st)) = (closures st)(nextComp st \<mapsto> p)"
    by (subst a) (simp add: slotsSame_def split: sum.splits)
  from s show "forceUpdates (snd (autorun env p st)) = forceUpdates st"
    by (subst a) (simp add: slotsSame_def split: sum.splits)
  from s show "doDeferredRender (snd (autorun env p st)) = doDeferredRender st"
    by (subst a) (simp add: slotsSame_def split: sum.splits)
  from s show "computation (snd (autorun env p st)) = computation st"
    by (subst a) (simp add: slotsSame_def split: sum.splits)
  from s show "stopCalls (snd (autorun env p st)) =
     (case fst (autorun env p st) of Inr c \<Rightarrow> stopCalls st
      | Inl e \<Rightarrow> nextComp st # stopCalls st)"
    by (subst a) (simp add: slotsSame_def split: sum.splits)
qed

lemma autorun_handle: "fst (autorun env p st) = Inr c \<Longrightarrow> c = nextComp st"
  by (simp add: autorun_def Let_def case_prod_beta split: outcome.splits)

subsection \<open>Disposal\<close>

text \<open>
  C5 (idempotent disposal). When a call of \<open>dispose\<close> returns, a second call right after
  it changes nothing and returns: over the two calls the cleanup callback has been
  invoked once if the slot held one (and not at all otherwise), the computation has
  received one \<open>stop\<close> if the slot held one, and both slots are empty. With both slots
  empty from the start, \<open>dispose\<close> is a no-op.
\<close>

theorem dispose_idempotent:
  assumes "fst (dispose st) = Done"
  shows "dispose (snd (dispose st)) = (Done, snd (dispose st))
       \<and> cleanupCalls (snd (dispose (snd (dispose st)))) =
           cleanupCalls st + (if computationCleanup st = None then 0 else 1)
       \<and> stopCalls (snd (dispose (snd (dispose st)))) =
           (case computation st of None \<Rightarrow> stopCalls st | Some c \<Rightarrow> c # stopCalls st)
       \<and> computationCleanup (snd (dispose st)) = None
       \<and> computation (snd (dispose st)) = None
       \<and> (computationCleanup st = None \<and> computation st = None \<longrightarrow> dispose st = (Done, st))"
  using assms
  by (auto simp: dispose_def stopComputation_def split: option.splits)

theorem dispose_idempotent_witness:
  "fst (dispose busy) = Done
   \<and> dispose (snd (dispose busy)) = (Done, snd (dispose busy))
   \<and> cleanupCalls (snd (dispose (snd (dispose busy)))) = 1
   \<and> stopCalls (snd (dispose (snd (dispose busy)))) = [7]"
proof -
  have returns: "fst (dispose busy) = Done"
    by (simp add: busy_def init_def dispose_def stopComputation_def callCleanup_def)
  show ?thesis
    using returns dispose_idempotent [OF returns]
    by (simp add: busy_def init_def dispose_def stopComputation_def callCleanup_def)
qed

subsection \<open>The first render\<close>

text \<open>
  C1 (synchronous first paint). On the first render of an instance, in the browser or
  on the server, when \<open>reactiveFn\<close> returns \<open>v\<close> for the new computation and the
  computation handler (if any) returns, the render pass returns \<open>v\<close>, \<open>cachedResult\<close>
  holds \<open>v\<close> when the pass ends, \<open>reactiveFn\<close> has run once and no re-render has been
  requested.
\<close>

theorem first_render_synchronous:
  assumes fn: "reactiveFn p (if isServer env then None else Some (Handle 0 True)) d = Inr v"
    and handler: "\<forall>h. computationHandler p = Some h \<longrightarrow>
                   (\<exists>r. h (if isServer env then None else Some (Handle 0 True)) = Inr r)"
  shows "fst (useTracker env p (init d)) = Inr (Some v)
       \<and> trackerData (snd (useTracker env p (init d))) = Some v
       \<and> fnCalls (snd (useTracker env p (init d))) = 1
       \<and> forceUpdates (snd (useTracker env p (init d))) = 0
       \<and> rendered (render env p (init d)) = [Some v]
       \<and> forceUpdates (render env p (init d)) = 0"
proof -
  let ?c = "if isServer env then None else Some (Handle 0 True)"
  have attached: "\<exists>st1. attachHandler env p ?c ((init d)\<lparr>nextComp := n, closures := cl\<rparr>) = (Done, st1)
         \<and> isMounted st1 = None \<and> source st1 = d \<and> fnCalls st1 = 0
         \<and> forceUpdates st1 = 0 \<and> rendered st1 = []" for n cl
  proof (cases "computationHandler p")
    case None
    then show ?thesis by (simp add: attachHandler_None init_def)
  next
    case (Some h)
    with handler obtain r where "h ?c = Inr r" by blast
    with Some show ?thesis by (simp add: attachHandler_Inr init_def)
  qed
  show ?thesis
  proof (cases "isServer env")
    case True
    from attached [where n=0 and cl=Map.empty] obtain st1 where
      "attachHandler env p None (init d) = (Done, st1)" "isMounted st1 = None" "source st1 = d"
      "fnCalls st1 = 0" "forceUpdates st1 = 0" "rendered st1 = []"
      using True by (auto simp: init_def)
    with True fn show ?thesis
      by (simp add: useTracker_def render_def useMemoCallback_def dispose_def
          stopComputation_def tracked_def trackedFirstRun_def runReactiveFn_def
          checkCursor_def memoRuns_def init_def Let_def)
  next
    case False
    from attached [where n="Suc 0" and cl="[0 \<mapsto> p]"] obtain st1 where
      "attachHandler env p (Some (Handle 0 True))
         ((init d)\<lparr>nextComp := Suc 0, closures := [0 \<mapsto> p]\<rparr>) = (Done, st1)"
      "isMounted st1 = None" "source st1 = d"
      "fnCalls st1 = 0" "forceUpdates st1 = 0" "rendered st1 = []"
      using False by auto
    with False fn show ?thesis
      by (simp add: useTracker_def render_def useMemoCallback_def dispose_def
          stopComputation_def autorun_def tracked_def trackedFirstRun_def runReactiveFn_def
          checkCursor_def setTimeout_def memoRuns_def init_def Let_def)
  qed
qed

theorem first_render_synchronous_witness:
  "fst (useTracker browser constant42 (init 0)) = Inr (Some 42)
   \<and> forceUpdates (snd (useTracker browser constant42 (init 0))) = 0
   \<and> rendered (render browser constant42 (init 0)) = [Some 42]"
  using first_render_synchronous [of constant42 browser 0 42]
  by (simp add: constant42_def browser_def)

text \<open>
  C10 (a recreation before the first commit returns the old value). When a render pass
  recreates the computation in the browser while \<open>isMounted\<close> is \<^verbatim>\<open>false\<close>, the first
  run of the new computation calls the computation handler and returns before
  \<open>reactiveFn\<close>: the pass returns the value cached before it, which stays cached.
\<close>

theorem precommit_recreation_stale:
  assumes unmounted: "isMounted st = Some False" and client: "\<not> isServer env"
    and changed: "memoRuns (memoDeps st) (deps p)"
    and disposed: "fst (dispose st) = Done"
    and handler: "\<forall>h. computationHandler p = Some h \<longrightarrow>
                   (\<exists>r. h (Some (Handle (nextComp st) True)) = Inr r)"
  shows "fst (useTracker env p st) = Inr (trackerData st)
       \<and> trackerData (snd (useTracker env p st)) = trackerData st
       \<and> fnCalls (snd (useTracker env p st)) = fnCalls st
       \<and> handlerCalls (snd (useTracker env p st)) =
           handlerCalls st + (if computationHandler p = None then 0 else 1)
       \<and> computation (snd (useTracker env p st)) = Some (nextComp st)
       \<and> closures (snd (useTracker env p st)) (nextComp st) = Some p
       \<and> rendered (render env p st) = trackerData st # rendered st"
proof (cases "computationHandler p")
  case None
  with unmounted client changed show ?thesis
    by (simp add: useTracker_def render_def useMemoCallback_def dispose_Done [OF disposed]
        autorun_def tracked_def trackedFirstRun_def attachHandler_None setTimeout_def Let_def)
next
  case (Some h)
  with handler obtain r where "h (Some (Handle (nextComp st) True)) = Inr r"
    by blast
  with Some unmounted client changed show ?thesis
    by (simp add: useTracker_def render_def useMemoCallback_def dispose_Done [OF disposed]
        autorun_def tracked_def trackedFirstRun_def attachHandler_Inr setTimeout_def Let_def)
qed

theorem precommit_recreation_stale_witness:
  "rendered (exec browser [Render (reader [1]), SetSource 2] (init 1)) = [Some 1]
   \<and> source (exec browser [Render (reader [1]), SetSource 2] (init 1)) = 2
   \<and> isMounted (exec browser [Render (reader [1]), SetSource 2] (init 1)) = Some False
   \<and> rendered (exec browser [Render (reader [1]), SetSource 2, Render (reader [2])] (init 1))
       = [Some 1, Some 1]"
proof -
  let ?st = "exec browser [Render (reader [1]), SetSource 2] (init 1)"
  have unmounted: "isMounted ?st = Some False"
    by (simp add: hook_defs event_defs example_defs)
  have client: "\<not> isServer browser"
    by (simp add: browser_def)
  have changed: "memoRuns (memoDeps ?st) (deps (reader [2]))"
    by (simp add: hook_defs event_defs example_defs)
  have disposed: "fst (dispose ?st) = Done"
    by (simp add: hook_defs event_defs example_defs)
  have handler: "\<forall>h. computationHandler (reader [2]) = Some h \<longrightarrow>
                   (\<exists>r. h (Some (Handle (nextComp ?st) True)) = Inr r)"
    by (auto simp: reader_def)
  have before: "rendered ?st = [Some 1]" "trackerData ?st = Some 1" "source ?st = 2"
    by (simp_all add: hook_defs event_defs example_defs)
  have "exec browser [Render (reader [1]), SetSource 2, Render (reader [2])] (init 1)
          = render browser (reader [2]) ?st"
    by simp
  with precommit_recreation_stale [OF unmounted client changed disposed handler] before unmounted
  show ?thesis
    by simp
qed

subsection \<open>Exceptions\<close>

lemma raised_dispose:
  "raised (snd (dispose st)) =
     (case fst (dispose st) of Done \<Rightarrow> raised st | Thrown e \<Rightarrow> e # raised st)"
  by (simp add: dispose_def stopComputation_def split: option.splits)

lemma raised_runReactiveFn:
  "raised (snd (runReactiveFn env p c st)) =
     (case fst (runReactiveFn env p c st) of Done \<Rightarrow> raised st | Thrown e \<Rightarrow> e # raised st)"
  by (simp add: runReactiveFn_def checkCursor_def Let_def split: sum.splits)

lemma raised_attachHandler:
  "raised (snd (attachHandler env p c st)) =
     (case fst (attachHandler env p c st) of Done \<Rightarrow> raised st | Thrown e \<Rightarrow> e # raised st)"
  by (simp add: attachHandler_def Let_def split: option.splits sum.splits)

lemma raised_trackedFirstRun:
  "raised (snd (trackedFirstRun env p c st)) =
     (case fst (trackedFirstRun env p c st) of Done \<Rightarrow> raised st | Thrown e \<Rightarrow> e # raised st)"
  by (simp add: trackedFirstRun_def case_prod_beta raised_attachHandler raised_runReactiveFn
      split: outcome.splits)

lemma raised_trackedRerun:
  "raised (snd (trackedRerun env p c st)) =
     (case fst (trackedRerun env p c st) of Done \<Rightarrow> raised st | Thrown e \<Rightarrow> e # raised st)"
  by (simp add: trackedRerun_def case_prod_beta raised_dispose raised_runReactiveFn
      forceUpdate_def split: outcome.splits)

lemma raised_tracked:
  "raised (snd (tracked env p c st)) =
     (case fst (tracked env p c st) of Done \<Rightarrow> raised st | Thrown e \<Rightarrow> e # raised st)"
  by (simp add: tracked_def raised_trackedFirstRun raised_trackedRerun split: option.splits)

lemma raised_autorun:
  "raised (snd (autorun env p st)) =
     (case fst (autorun env p st) of Inr c \<Rightarrow> raised st | Inl e \<Rightarrow> e # raised st)"
  by (simp add: autorun_def Let_def case_prod_beta raised_tracked split: outcome.splits)

lemma raised_timeoutCallback:
  "raised (snd (timeoutCallback st)) =
     (case fst (timeoutCallback st) of Done \<Rightarrow> raised st | Thrown e \<Rightarrow> e # raised st)"
  by (simp add: timeoutCallback_def raised_dispose)

lemma raised_useMemoCallback:
  "raised (snd (useMemoCallback env p st)) =
     (case fst (useMemoCallback env p st) of Done \<Rightarrow> raised st | Thrown e \<Rightarrow> e # raised st)"
  by (simp add: useMemoCallback_def case_prod_beta Let_def setTimeout_def raised_dispose
      raised_tracked raised_autorun split: outcome.splits sum.splits)

lemma raised_effectRestart:
  "raised (snd (effectRestart env p st)) =
     (case fst (effectRestart env p st) of Done \<Rightarrow> raised st | Thrown e \<Rightarrow> e # raised st)"
  by (simp add: effectRestart_def case_prod_beta raised_autorun split: sum.splits)

lemma raised_effectReplay:
  "raised (snd (effectReplay env p st)) =
     (case fst (effectReplay env p st) of Done \<Rightarrow> raised st | Thrown e \<Rightarrow> e # raised st)"
  by (simp add: effectReplay_def case_prod_beta raised_runReactiveFn forceUpdate_def
      split: outcome.splits)

lemma raised_useEffectCallback:
  "raised (snd (useEffectCallback env p st)) =
     (case fst (useEffectCallback env p st) of Done \<Rightarrow> raised st | Thrown e \<Rightarrow> e # raised st)"
  by (simp add: useEffectCallback_def case_prod_beta Let_def clearTimeout_def
      raised_effectRestart raised_effectReplay split: outcome.splits)

lemma raised_useTracker:
  "raised (snd (useTracker env p st)) =
     (case fst (useTracker env p st) of Inr v \<Rightarrow> raised st | Inl e \<Rightarrow> e # raised st)"
  by (simp add: useTracker_def case_prod_beta raised_useMemoCallback split: outcome.splits)

lemma hostSame_thrown: "hostSame a st \<Longrightarrow> thrown st = thrown a"
  by (simp add: hostSame_def)

lemma thrown_dispose [simp]: "thrown (snd (dispose st)) = thrown st"
  by (rule hostSame_thrown) simp

lemma thrown_tracked [simp]: "thrown (snd (tracked env p c st)) = thrown st"
  by (rule hostSame_thrown) simp

lemma thrown_useMemoCallback: "thrown (snd (useMemoCallback env p st)) = thrown st"
proof -
  have "thrown (snd (tracked env p None ((snd (dispose st))\<lparr>computation := None\<rparr>))) = thrown st"
    and "thrown (snd (autorun env p (snd (dispose st)))) = thrown st"
    and "thrown (snd (dispose st)) = thrown st"
    by (rule hostSame_thrown, simp)+
  then show ?thesis
    by (simp add: useMemoCallback_def case_prod_beta Let_def setTimeout_def
        split: outcome.splits sum.splits)
qed

lemma thrown_useTracker: "thrown (snd (useTracker env p st)) = thrown st"
  by (simp add: useTracker_def case_prod_beta thrown_useMemoCallback split: outcome.splits)

lemma thrown_useEffectCallback: "thrown (snd (useEffectCallback env p st)) = thrown st"
proof -
  let ?s2 = "(clearTimeout (disposeId st) (st\<lparr>isMounted := Some True\<rparr>))\<lparr>disposeId := None\<rparr>"
  have "thrown (snd (effectRestart env p ?s2)) = thrown ?s2"
    and "thrown (snd (effectReplay env p (snd (effectRestart env p ?s2)))) = thrown ?s2"
    by (rule hostSame_thrown, simp)+
  then show ?thesis
    by (simp add: useEffectCallback_def case_prod_beta Let_def clearTimeout_def
        split: outcome.splits)
qed

lemma accounted_caught:
  assumes "thrown st = raised st" and "thrown (snd r) = thrown st"
    and "raised (snd r) = (case fst r of Done \<Rightarrow> raised st | Thrown e \<Rightarrow> e # raised st)"
  shows "thrown (caught r) = raised (caught r)"
  using assms by (cases r) (simp add: caught_def split: outcome.splits)

lemma accounted_fireTimers:
  "thrown st = raised st \<Longrightarrow> thrown (fireTimers ts st) = raised (fireTimers ts st)"
proof (induction ts arbitrary: st)
  case Nil
  then show ?case by simp
next
  case (Cons t ts)
  let ?s = "st\<lparr>timers := filter (\<lambda>u. fst u \<noteq> fst t) (timers st)\<rparr>"
  have "thrown (snd (timeoutCallback ?s)) = thrown ?s"
    by (simp add: timeoutCallback_def)
  with Cons.prems raised_timeoutCallback [of ?s]
  have "thrown (caught (timeoutCallback ?s)) = raised (caught (timeoutCallback ?s))"
    by (intro accounted_caught [of ?s]) simp_all
  with Cons.IH [of "caught (timeoutCallback ?s)"] Cons.IH [of st] Cons.prems show ?case
    by simp
qed

lemma accounted_step:
  assumes "thrown st = raised st"
  shows "thrown (step env e st) = raised (step env e st)"
proof (cases e)
  case (Render p)
  with assms raised_useTracker [of env p st] thrown_useTracker [of env p st] show ?thesis
    by (simp add: render_def case_prod_beta split: sum.splits)
next
  case Commit
  show ?thesis
  proof (cases "effectClosure st")
    case None
    with Commit assms show ?thesis by (simp add: commit_def)
  next
    case (Some p)
    let ?s = "st\<lparr>committed := True\<rparr>"
    from assms raised_useEffectCallback [of env p ?s] thrown_useEffectCallback [of env p ?s]
      Commit Some show ?thesis
      by (simp add: commit_def case_prod_beta split: outcome.splits)
  qed
next
  case Unmount
  let ?s = "st\<lparr>unmountAction := False\<rparr>"
  have "thrown (snd (dispose ?s)) = thrown ?s"
    by simp
  with assms raised_dispose [of ?s] have "thrown (caught (dispose ?s)) = raised (caught (dispose ?s))"
    by (intro accounted_caught [of ?s]) simp_all
  with Unmount assms show ?thesis
    by (simp add: unmount_def)
next
  case (Pulse c)
  have "thrown (caught (tracked env q h st)) = raised (caught (tracked env q h st))" for q h
    using assms raised_tracked [of env q h st]
    by (intro accounted_caught [of st]) simp_all
  with Pulse assms show ?thesis
    by (simp add: pulse_def split: option.splits)
next
  case (Invalidate c)
  have "thrown (caught (tracked env q h st)) = raised (caught (tracked env q h st))" for q h
    using assms raised_tracked [of env q h st]
    by (intro accounted_caught [of st]) simp_all
  with Invalidate assms show ?thesis
    by (simp add: invalidate_def pulse_def split: option.splits)
next
  case (Advance n)
  from assms have "thrown (st\<lparr>now := now st + n\<rparr>) = raised (st\<lparr>now := now st + n\<rparr>)"
    by simp
  from accounted_fireTimers [OF this] Advance show ?thesis
    by (simp add: advance_def Let_def)
next
  case (SetSource d)
  with assms show ?thesis by simp
qed

lemma accounted_exec:
  "thrown st = raised st \<Longrightarrow> thrown (exec env es st) = raised (exec env es st)"
proof (induction es arbitrary: st)
  case Nil
  then show ?case by simp
next
  case (Cons e es)
  from Cons.IH [OF accounted_step [OF Cons.prems]] show ?case by simp
qed

text \<open>
  C9 (exceptions are not caught). An exception of \<open>reactiveFn\<close>, of the computation
  handler or of the stored cleanup callback leaves the closure that made the call, with
  the state as it was at the call; for the cleanup callback this is before the \<open>stop\<close>
  call of \<open>dispose\<close>: no \<open>stop\<close> is recorded, and the computation and the cleanup
  callback stay in their slots. Every closure of the hook, in every state, in the browser
  and on the server, leaves with exactly the exception raised in a callback during its
  run, and returns only when none was raised. For every sequence of events, the
  exceptions that reached the host or the engine are the exceptions raised in the
  callbacks, in the same order.
\<close>

theorem errors_propagate:
  "(reactiveFn p c (source st) = Inl e \<longrightarrow>
      runReactiveFn env p c st =
        (Thrown e, st\<lparr>fnCalls := Suc (fnCalls st), raised := e # raised st\<rparr>))
   \<and> (computationHandler q = Some h \<and> h c = Inl e' \<longrightarrow>
      attachHandler env q c st =
        (Thrown e', st\<lparr>handlerCalls := Suc (handlerCalls st), raised := e' # raised st\<rparr>))
   \<and> (computationCleanup s = Some k \<and> callCleanup k = Some e'' \<longrightarrow>
      dispose s =
        (Thrown e'', s\<lparr>cleanupCalls := Suc (cleanupCalls s), raised := e'' # raised s\<rparr>)
      \<and> stopCalls (snd (dispose s)) = stopCalls s
      \<and> computation (snd (dispose s)) = computation s
      \<and> computationCleanup (snd (dispose s)) = Some k)
   \<and> escapes st (dispose st)
   \<and> escapes st (runReactiveFn env p c st)
   \<and> escapes st (attachHandler env p c st)
   \<and> escapes st (tracked env p c st)
   \<and> escapes st (outcomeOf (fst (autorun env p st)), snd (autorun env p st))
   \<and> escapes st (timeoutCallback st)
   \<and> escapes st (useMemoCallback env p st)
   \<and> escapes st (effectRestart env p st)
   \<and> escapes st (effectReplay env p st)
   \<and> escapes st (useEffectCallback env p st)
   \<and> escapes st (outcomeOf (fst (useTracker env p st)), snd (useTracker env p st))
   \<and> thrown (exec env es (init d)) = raised (exec env es (init d))"
proof -
  have "thrown (exec env es (init d)) = raised (exec env es (init d))"
    by (rule accounted_exec) (simp add: init_def)
  then show ?thesis
    by (simp add: escapes_def outcomeOf_def runReactiveFn_Inl attachHandler_Inl dispose_Thrown
        raised_dispose raised_runReactiveFn raised_attachHandler raised_tracked raised_autorun
        raised_timeoutCallback raised_useMemoCallback raised_effectRestart raised_effectReplay
        raised_useEffectCallback raised_useTracker split: sum.splits)
qed

theorem errors_propagate_witness:
  "runReactiveFn browser failing None jammed =
     (Thrown (UserError 1), jammed\<lparr>fnCalls := 1, raised := [UserError 1]\<rparr>)
   \<and> attachHandler browser badHandler None jammed =
     (Thrown (UserError 2), jammed\<lparr>handlerCalls := 1, raised := [UserError 2]\<rparr>)
   \<and> dispose jammed =
     (Thrown (UserError 3), jammed\<lparr>cleanupCalls := 1, raised := [UserError 3]\<rparr>)
   \<and> stopCalls (snd (dispose jammed)) = []
   \<and> computation (snd (dispose jammed)) = Some 7
   \<and> fst (useMemoCallback server failing (init 0)) = Thrown (UserError 1)
   \<and> fst (timeoutCallback (jammed\<lparr>isMounted := Some False\<rparr>)) = Thrown (UserError 3)
   \<and> fst (effectRestart browser failing ((init 0)\<lparr>isMounted := Some True\<rparr>))
       = Thrown (UserError 1)
   \<and> thrown (exec browser [Render failing, Render leaky, Commit, Unmount] (init 0))
       = [UserError 3, UserError 1]"
  using errors_propagate [where p = failing and c = None and st = jammed
      and e = "UserError 1" and env = browser and q = badHandler
      and h = "\<lambda>c. Inl (UserError 2)" and e' = "UserError 2" and s = jammed
      and k = "CleanupFn (Some (UserError 3))" and e'' = "UserError 3" and d = 0
      and es = "[Render failing, Render leaky, Commit, Unmount]"]
  by (simp add: hook_defs event_defs example_defs escapes_def outcomeOf_def)

subsection \<open>Dependencies that are not an array\<close>

lemma rerun_not_array:
  assumes "\<not> isArray (deps p)" and "fst (dispose st) = Done"
  shows "tracked env p (Some (Handle n False)) st = (Done, forceUpdate (snd (dispose st)))"
  using assms by (simp add: tracked_def trackedRerun_def case_prod_beta)

lemma useMemoCallback_client:
  assumes "\<not> isServer env" and "fst (useMemoCallback env p st) = Done"
  shows "fst (dispose st) = Done"
    and "snd (useMemoCallback env p st) =
           (let st2 = (snd (autorun env p (snd (dispose st))))
                        \<lparr>computation := Some (nextComp st)\<rparr>
            in if isMounted st2 \<noteq> Some True then setTimeout 50 st2 else st2)"
    and "fst (autorun env p (snd (dispose st))) = Inr (nextComp st)"
proof -
  from assms show d: "fst (dispose st) = Done"
    by (simp add: useMemoCallback_def case_prod_beta split: outcome.splits)
  have h: "c = nextComp st" if "fst (autorun env p (snd (dispose st))) = Inr c" for c
    using autorun_handle [OF that] by simp
  from assms d obtain c where "fst (autorun env p (snd (dispose st))) = Inr c"
    by (cases "fst (autorun env p (snd (dispose st)))")
       (simp_all add: useMemoCallback_def case_prod_beta)
  with h show "fst (autorun env p (snd (dispose st))) = Inr (nextComp st)"
    by simp
  from h assms d show "snd (useMemoCallback env p st) =
           (let st2 = (snd (autorun env p (snd (dispose st))))
                        \<lparr>computation := Some (nextComp st)\<rparr>
            in if isMounted st2 \<noteq> Some True then setTimeout 50 st2 else st2)"
    by (simp add: useMemoCallback_def case_prod_beta Let_def split: sum.splits)
qed

lemma useTracker_returns:
  assumes "fst (useTracker env p st) = Inr v" and "memoRuns (memoDeps st) (deps p)"
  shows "fst (useMemoCallback env p st) = Done"
    and "snd (useTracker env p st) =
           (snd (useMemoCallback env p st))
             \<lparr>memoDeps := Some (deps p),
               effectClosure := (if committed (snd (useMemoCallback env p st))
                                 then effectClosure (snd (useMemoCallback env p st))
                                 else Some p)\<rparr>"
  using assms
  by (simp_all add: useTracker_def case_prod_beta split: outcome.splits)

text \<open>
  C6 (dependencies that are not an array always recreate). On a later run of \<open>tracked\<close>
  with \<^verbatim>\<open>deps\<close> \<^verbatim>\<open>undefined\<close>, \<^verbatim>\<open>null\<close> or not an array, when \<open>dispose\<close> returns, the
  computation in the slot is stopped and the slot emptied, one re-render is requested,
  and \<open>reactiveFn\<close> is not called: the cached value stays. With \<^verbatim>\<open>deps\<close> omitted, every
  render pass in the browser that returns has stopped the computation of the slot and
  put a new one there, bound to this render's closure.
\<close>

theorem not_array_always_recreates:
  "(\<not> isArray (deps p) \<and> fst (dispose st) = Done \<longrightarrow>
      tracked env p (Some (Handle n False)) st = (Done, forceUpdate (snd (dispose st)))
      \<and> computation (snd (tracked env p (Some (Handle n False)) st)) = None
      \<and> stopCalls (snd (tracked env p (Some (Handle n False)) st)) =
          (case computation st of None \<Rightarrow> stopCalls st | Some c \<Rightarrow> c # stopCalls st)
      \<and> forceUpdates (snd (tracked env p (Some (Handle n False)) st)) = Suc (forceUpdates st)
      \<and> fnCalls (snd (tracked env p (Some (Handle n False)) st)) = fnCalls st
      \<and> trackerData (snd (tracked env p (Some (Handle n False)) st)) = trackerData st)
   \<and> (deps q = Undefined \<and> \<not> isServer env \<and> fst (useTracker env q s) = Inr v \<longrightarrow>
      computation (snd (useTracker env q s)) = Some (nextComp s)
      \<and> nextComp (snd (useTracker env q s)) = Suc (nextComp s)
      \<and> closures (snd (useTracker env q s)) (nextComp s) = Some q
      \<and> stopCalls (snd (useTracker env q s)) =
          (case computation s of None \<Rightarrow> stopCalls s | Some c \<Rightarrow> c # stopCalls s))"
proof (intro conjI impI)
  assume "\<not> isArray (deps p) \<and> fst (dispose st) = Done"
  then have t: "tracked env p (Some (Handle n False)) st = (Done, forceUpdate (snd (dispose st)))"
    and d: "fst (dispose st) = Done"
    by (simp_all add: rerun_not_array)
  show "tracked env p (Some (Handle n False)) st = (Done, forceUpdate (snd (dispose st)))"
    by (rule t)
  show "computation (snd (tracked env p (Some (Handle n False)) st)) = None"
    by (simp add: t forceUpdate_def dispose_Done [OF d])
  show "stopCalls (snd (tracked env p (Some (Handle n False)) st)) =
          (case computation st of None \<Rightarrow> stopCalls st | Some c \<Rightarrow> c # stopCalls st)"
    by (simp add: t forceUpdate_def dispose_Done [OF d])
  show "forceUpdates (snd (tracked env p (Some (Handle n False)) st)) = Suc (forceUpdates st)"
    by (simp add: t forceUpdate_def)
  show "fnCalls (snd (tracked env p (Some (Handle n False)) st)) = fnCalls st"
    by (simp add: t forceUpdate_def)
  show "trackerData (snd (tracked env p (Some (Handle n False)) st)) = trackerData st"
    by (simp add: t forceUpdate_def)
next
  assume "deps q = Undefined \<and> \<not> isServer env \<and> fst (useTracker env q s) = Inr v"
  then have undef: "deps q = Undefined" and client: "\<not> isServer env"
    and returns: "fst (useTracker env q s) = Inr v"
    by simp_all
  from undef have runs: "memoRuns (memoDeps s) (deps q)"
    by (simp add: memoRuns_def split: option.splits)
  note u = useTracker_returns [OF returns runs]
  note m = useMemoCallback_client [OF client u(1)]
  have stops: "stopCalls (snd (dispose s)) =
      (case computation s of None \<Rightarrow> stopCalls s | Some c \<Rightarrow> c # stopCalls s)"
    by (simp add: dispose_Done [OF m(1)])
  show "computation (snd (useTracker env q s)) = Some (nextComp s)"
    by (simp add: u(2) m(2) Let_def setTimeout_def)
  show "nextComp (snd (useTracker env q s)) = Suc (nextComp s)"
    by (simp add: u(2) m(2) Let_def setTimeout_def)
  show "closures (snd (useTracker env q s)) (nextComp s) = Some q"
    by (simp add: u(2) m(2) Let_def setTimeout_def)
  show "stopCalls (snd (useTracker env q s)) =
          (case computation s of None \<Rightarrow> stopCalls s | Some c \<Rightarrow> c # stopCalls s)"
    by (simp add: u(2) m(2) m(3) Let_def setTimeout_def stops)
qed

theorem not_array_always_recreates_witness:
  "fst (dispose (render browser constant42 (init 0))) = Done
   \<and> stopCalls (snd (tracked browser constant42 (Some (Handle 0 False))
                       (render browser constant42 (init 0)))) = [0]
   \<and> forceUpdates (snd (tracked browser constant42 (Some (Handle 0 False))
                          (render browser constant42 (init 0)))) = 1
   \<and> fnCalls (snd (tracked browser constant42 (Some (Handle 0 False))
                     (render browser constant42 (init 0)))) = 1
   \<and> fst (useTracker browser constant42 (render browser constant42 (init 0))) = Inr (Some 42)
   \<and> computation (snd (useTracker browser constant42 (render browser constant42 (init 0))))
       = Some 1
   \<and> stopCalls (snd (useTracker browser constant42 (render browser constant42 (init 0))))
       = [0]"
proof -
  let ?st = "render browser constant42 (init 0)"
  have a: "\<not> isArray (deps constant42)" "deps constant42 = Undefined" "\<not> isServer browser"
    by (simp_all add: constant42_def browser_def isArray_def)
  have b: "fst (dispose ?st) = Done" "computation ?st = Some 0" "stopCalls ?st = []"
    "forceUpdates ?st = 0" "fnCalls ?st = 1" "nextComp ?st = 1"
    by (simp_all add: hook_defs event_defs example_defs)
  have c: "fst (useTracker browser constant42 ?st) = Inr (Some 42)"
    by (simp add: hook_defs event_defs example_defs)
  have d: "stopCalls (snd (dispose ?st)) = [0]"
    by (simp add: hook_defs event_defs example_defs)
  from not_array_always_recreates [of constant42 ?st browser 0 constant42 ?st "Some 42"] a b c d
  show ?thesis
    by (simp add: forceUpdate_def)
qed

subsection \<open>The post-commit effect\<close>

lemma hostSame_source: "hostSame a st \<Longrightarrow> source st = source a"
  by (simp add: hostSame_def)

lemma source_autorun [simp]: "source (snd (autorun env p st)) = source st"
  by (rule hostSame_source) simp

lemma mounted_runReactiveFn [simp]:
  "isMounted (snd (runReactiveFn env p c st)) = isMounted st"
  by (simp add: runReactiveFn_def checkCursor_def Let_def split: sum.splits)

lemma mounted_attachHandler [simp]:
  "isMounted (snd (attachHandler env p c st)) = isMounted st"
  by (simp add: attachHandler_def Let_def split: option.splits sum.splits)

lemma mounted_trackedFirstRun:
  "isMounted st = Some True \<Longrightarrow> isMounted (snd (trackedFirstRun env p c st)) = Some True"
  by (simp add: trackedFirstRun_def case_prod_beta split: outcome.splits)

lemma mounted_autorun:
  "isMounted st = Some True \<Longrightarrow> isMounted (snd (autorun env p st)) = Some True"
  by (simp add: autorun_def tracked_def Let_def case_prod_beta mounted_trackedFirstRun
      split: outcome.splits)

lemma mounted_trackedFirstRun_iff:
  "isMounted (snd (trackedFirstRun env p c st)) = Some True \<longleftrightarrow> isMounted st = Some True"
  by (simp add: trackedFirstRun_def case_prod_beta split: outcome.splits)

lemma mounted_autorun_iff:
  "isMounted (snd (autorun env p st)) = Some True \<longleftrightarrow> isMounted st = Some True"
  by (simp add: autorun_def tracked_def Let_def case_prod_beta mounted_trackedFirstRun_iff
      split: outcome.splits)

lemma effectRestart_array:
  assumes "computation st = None" and "isArray (deps p)"
    and "fst (effectRestart env p st) = Done"
  shows "snd (effectRestart env p st) =
           (snd (autorun env p st))\<lparr>computation := Some (nextComp st),
                                     doDeferredRender := Some True\<rparr>"
proof -
  have "c = nextComp st" if "fst (autorun env p st) = Inr c" for c
    using autorun_handle [OF that] .
  with assms show ?thesis
    by (simp add: effectRestart_def case_prod_beta split: sum.splits)
qed

lemma effectRestart_not_array:
  "computation st = None \<Longrightarrow> \<not> isArray (deps p) \<Longrightarrow>
   effectRestart env p st = (Done, st\<lparr>doDeferredRender := Some True\<rparr>)"
  by (simp add: effectRestart_def)

lemma effectRestart_present:
  "computation st = Some c \<Longrightarrow> effectRestart env p st = (Done, st)"
  by (simp add: effectRestart_def)

lemma effectReplay_pending:
  assumes "doDeferredRender st = Some True" and "fst (effectReplay env p st) = Done"
  shows "\<exists>v. reactiveFn p (map_option (\<lambda>c. Handle c False) (computation st)) (source st) = Inr v
           \<and> snd (effectReplay env p st) =
               st\<lparr>fnCalls := Suc (fnCalls st),
                  warnings := (if isDevelopment env \<and> hasCursor env v
                               then Suc (warnings st) else warnings st),
                  trackerData := Some v,
                  forceUpdates := Suc (forceUpdates st),
                  doDeferredRender := None\<rparr>"
proof (cases "reactiveFn p (map_option (\<lambda>c. Handle c False) (computation st)) (source st)")
  case (Inl e)
  with assms show ?thesis
    by (simp add: effectReplay_def runReactiveFn_Inl)
next
  case (Inr v)
  with assms show ?thesis
    by (simp add: effectReplay_def runReactiveFn_Inr forceUpdate_def)
qed

lemma useEffectCallback_client:
  assumes "\<not> isServer env" and "fst (useEffectCallback env p st) = Done"
  shows "fst (effectRestart env p
                ((clearTimeout (disposeId st) (st\<lparr>isMounted := Some True\<rparr>))
                   \<lparr>disposeId := None\<rparr>)) = Done"
    and "fst (effectReplay env p (snd (effectRestart env p
                ((clearTimeout (disposeId st) (st\<lparr>isMounted := Some True\<rparr>))
                   \<lparr>disposeId := None\<rparr>)))) = Done"
    and "snd (useEffectCallback env p st) =
           snd (effectReplay env p (snd (effectRestart env p
                ((clearTimeout (disposeId st) (st\<lparr>isMounted := Some True\<rparr>))
                   \<lparr>disposeId := None\<rparr>))))"
  using assms
  by (simp_all add: useEffectCallback_def Let_def case_prod_beta split: outcome.splits)

text \<open>
  C7 (recovery by the mount reconciler). In the browser, when the post-commit effect
  finds no computation and returns: with array dependencies a new computation is created
  and put in the slot; without, none is created. Either way the deferred render is
  marked pending by the restart block and replayed: one re-render request, the flag
  cleared, \<open>reactiveFn\<close> evaluated on the computation of the slot. In a state whose two
  slots are empty and whose \<open>isMounted\<close> is \<^verbatim>\<open>true\<close>, the restart block is the callback of
  \<^verbatim>\<open>useMemo\<close> followed by the marking of the deferred render.
\<close>

theorem mount_reconciler_recovery:
  "(\<not> isServer env \<and> computation st = None \<and> fst (useEffectCallback env p st) = Done \<longrightarrow>
      isMounted (snd (useEffectCallback env p st)) = Some True
      \<and> forceUpdates (snd (useEffectCallback env p st)) = Suc (forceUpdates st)
      \<and> doDeferredRender (snd (useEffectCallback env p st)) = None
      \<and> (\<exists>v. reactiveFn p
                (map_option (\<lambda>c. Handle c False) (computation (snd (useEffectCallback env p st))))
                (source st) = Inr v
             \<and> trackerData (snd (useEffectCallback env p st)) = Some v)
      \<and> (if isArray (deps p)
         then computation (snd (useEffectCallback env p st)) = Some (nextComp st)
              \<and> nextComp (snd (useEffectCallback env p st)) = Suc (nextComp st)
              \<and> closures (snd (useEffectCallback env p st)) = (closures st)(nextComp st \<mapsto> p)
         else computation (snd (useEffectCallback env p st)) = None
              \<and> nextComp (snd (useEffectCallback env p st)) = nextComp st
              \<and> closures (snd (useEffectCallback env p st)) = closures st))
   \<and> (computation s = None \<and> fst (effectRestart env p s) = Done \<longrightarrow>
      doDeferredRender (snd (effectRestart env p s)) = Some True)
   \<and> (\<not> isServer env \<and> isArray (deps p) \<and> isMounted s = Some True
        \<and> computation s = None \<and> computationCleanup s = None \<longrightarrow>
      effectRestart env p s =
        (case useMemoCallback env p s of
           (Done, s') \<Rightarrow> (Done, s'\<lparr>doDeferredRender := Some True\<rparr>)
         | (Thrown e, s') \<Rightarrow> (Thrown e, s')))"
proof (intro conjI impI)
  assume "\<not> isServer env \<and> computation st = None \<and> fst (useEffectCallback env p st) = Done"
  then have client: "\<not> isServer env" and empty: "computation st = None"
    and returns: "fst (useEffectCallback env p st) = Done"
    by simp_all
  let ?s2 = "(clearTimeout (disposeId st) (st\<lparr>isMounted := Some True\<rparr>))\<lparr>disposeId := None\<rparr>"
  let ?s3 = "snd (effectRestart env p ?s2)"
  note e = useEffectCallback_client [OF client returns]
  have s2: "computation ?s2 = None" "isMounted ?s2 = Some True" "nextComp ?s2 = nextComp st"
    "closures ?s2 = closures st" "forceUpdates ?s2 = forceUpdates st" "source ?s2 = source st"
    using empty by (simp_all add: clearTimeout_def)
  have s3: "?s3 = (if isArray (deps p)
                   then (snd (autorun env p ?s2))\<lparr>computation := Some (nextComp st),
                                                    doDeferredRender := Some True\<rparr>
                   else ?s2\<lparr>doDeferredRender := Some True\<rparr>)"
    using effectRestart_array [OF s2(1) _ e(1)] effectRestart_not_array [OF s2(1), of p env] s2(3)
    by simp
  have pending: "doDeferredRender ?s3 = Some True"
    by (simp add: s3)
  from effectReplay_pending [OF pending e(2)] obtain v where
    v: "reactiveFn p (map_option (\<lambda>c. Handle c False) (computation ?s3)) (source ?s3) = Inr v"
    and s4: "snd (effectReplay env p ?s3) =
               ?s3\<lparr>fnCalls := Suc (fnCalls ?s3),
                  warnings := (if isDevelopment env \<and> hasCursor env v
                               then Suc (warnings ?s3) else warnings ?s3),
                  trackerData := Some v,
                  forceUpdates := Suc (forceUpdates ?s3),
                  doDeferredRender := None\<rparr>"
    by blast
  have m3: "isMounted ?s3 = Some True"
    using mounted_autorun [OF s2(2), of env p] s2(2) by (simp add: s3)
  have f3: "forceUpdates ?s3 = forceUpdates st" "source ?s3 = source st"
    using s2 by (simp_all add: s3)
  have c3: "computation ?s3 = (if isArray (deps p) then Some (nextComp st) else None)"
    "nextComp ?s3 = (if isArray (deps p) then Suc (nextComp st) else nextComp st)"
    "closures ?s3 = (if isArray (deps p) then (closures st)(nextComp st \<mapsto> p) else closures st)"
    using s2 by (simp_all add: s3)
  show "isMounted (snd (useEffectCallback env p st)) = Some True"
    by (simp add: e(3) s4 m3)
  show "forceUpdates (snd (useEffectCallback env p st)) = Suc (forceUpdates st)"
    by (simp add: e(3) s4 f3)
  show "doDeferredRender (snd (useEffectCallback env p st)) = None"
    by (simp add: e(3) s4)
  show "\<exists>v. reactiveFn p
                (map_option (\<lambda>c. Handle c False) (computation (snd (useEffectCallback env p st))))
                (source st) = Inr v
             \<and> trackerData (snd (useEffectCallback env p st)) = Some v"
    using v by (simp add: e(3) s4 f3)
  show "if isArray (deps p)
         then computation (snd (useEffectCallback env p st)) = Some (nextComp st)
              \<and> nextComp (snd (useEffectCallback env p st)) = Suc (nextComp st)
              \<and> closures (snd (useEffectCallback env p st)) = (closures st)(nextComp st \<mapsto> p)
         else computation (snd (useEffectCallback env p st)) = None
              \<and> nextComp (snd (useEffectCallback env p st)) = nextComp st
              \<and> closures (snd (useEffectCallback env p st)) = closures st"
    by (simp add: e(3) s4 c3)
next
  assume a: "computation s = None \<and> fst (effectRestart env p s) = Done"
  show "doDeferredRender (snd (effectRestart env p s)) = Some True"
  proof (cases "isArray (deps p)")
    case True
    with a effectRestart_array [of s p env] show ?thesis by simp
  next
    case False
    with a show ?thesis by (simp add: effectRestart_not_array)
  qed
next
  assume "\<not> isServer env \<and> isArray (deps p) \<and> isMounted s = Some True
        \<and> computation s = None \<and> computationCleanup s = None"
  then have a: "\<not> isServer env" "isArray (deps p)" "isMounted s = Some True"
    "computation s = None" "computationCleanup s = None"
    by simp_all
  have d: "dispose s = (Done, s)"
    using a by (simp add: dispose_empty)
  have m: "isMounted (snd (autorun env p s)) = Some True"
    using a by (simp add: mounted_autorun)
  show "effectRestart env p s =
        (case useMemoCallback env p s of
           (Done, s') \<Rightarrow> (Done, s'\<lparr>doDeferredRender := Some True\<rparr>)
         | (Thrown e, s') \<Rightarrow> (Thrown e, s'))"
    using a m
    by (simp add: effectRestart_def useMemoCallback_def d case_prod_beta Let_def
        split: sum.splits)
qed

theorem mount_reconciler_recovery_witness:
  "computation (exec browser [Render (reader [1]), Advance 50] (init 1)) = None
   \<and> stopCalls (exec browser [Render (reader [1]), Advance 50] (init 1)) = [0]
   \<and> fst (useEffectCallback browser (reader [1])
             (exec browser [Render (reader [1]), Advance 50] (init 1))) = Done
   \<and> computation (snd (useEffectCallback browser (reader [1])
                          (exec browser [Render (reader [1]), Advance 50] (init 1)))) = Some 1
   \<and> forceUpdates (snd (useEffectCallback browser (reader [1])
                           (exec browser [Render (reader [1]), Advance 50] (init 1)))) = 1
   \<and> doDeferredRender (snd (useEffectCallback browser (reader [1])
                               (exec browser [Render (reader [1]), Advance 50] (init 1)))) = None
   \<and> doDeferredRender (snd (effectRestart browser (reader [1])
                               ((init 1)\<lparr>isMounted := Some True\<rparr>))) = Some True"
  using mount_reconciler_recovery
    [of browser "exec browser [Render (reader [1]), Advance 50] (init 1)" "reader [1]"
        "(init 1)\<lparr>isMounted := Some True\<rparr>"]
  by (simp add: hook_defs event_defs example_defs)

subsection \<open>The leak-guard timer\<close>

lemma hostSame_timers: "hostSame a st \<Longrightarrow> timers st = timers a"
  by (simp add: hostSame_def)

lemma timers_caught [simp]: "timers (caught r) = timers (snd r)"
  by (cases r) (simp add: caught_def split: outcome.splits)

lemma timers_dispose [simp]: "timers (snd (dispose st)) = timers st"
  by (rule hostSame_timers) simp

lemma timers_tracked [simp]: "timers (snd (tracked env p c st)) = timers st"
  by (rule hostSame_timers) simp

lemma hostSame_trans: "hostSame a b \<Longrightarrow> hostSame b c \<Longrightarrow> hostSame a c"
  by (simp add: hostSame_def)

lemma useEffectCallback_host:
  assumes "\<not> isServer env"
  shows "hostSame ((clearTimeout (disposeId st) st)\<lparr>disposeId := None\<rparr>)
           (snd (useEffectCallback env p st))"
proof -
  let ?s2 = "(clearTimeout (disposeId st) (st\<lparr>isMounted := Some True\<rparr>))\<lparr>disposeId := None\<rparr>"
  have a: "hostSame ((clearTimeout (disposeId st) st)\<lparr>disposeId := None\<rparr>) ?s2"
    by (simp add: hostSame_def clearTimeout_def)
  have b: "hostSame ?s2 (snd (effectRestart env p ?s2))"
    and c: "hostSame ?s2 (snd (effectReplay env p (snd (effectRestart env p ?s2))))"
    by simp_all
  from assms hostSame_trans [OF a b] hostSame_trans [OF a c] show ?thesis
    by (simp add: useEffectCallback_def Let_def case_prod_beta split: outcome.splits)
qed

lemma timers_commit: "length (timers (commit env st)) \<le> length (timers st)"
proof (cases "isServer env")
  case True
  then show ?thesis
    by (simp add: commit_def useEffectCallback_def Let_def split: option.splits)
next
  case False
  have eq: "timers (snd (useEffectCallback env p s)) =
          filter (\<lambda>t. Some (fst t) \<noteq> disposeId s) (timers s)" for p s
    using hostSame_timers [OF useEffectCallback_host [OF False, of s p]]
    by (simp add: clearTimeout_def)
  show ?thesis
    by (simp add: commit_def case_prod_beta eq split: option.splits outcome.splits)
qed

lemma timers_fireTimers: "length (timers (fireTimers ts st)) \<le> length (timers st)"
proof (induction ts arbitrary: st)
  case Nil
  show ?case by simp
next
  case (Cons t ts)
  let ?s = "caught (timeoutCallback (st\<lparr>timers := filter (\<lambda>u. fst u \<noteq> fst t) (timers st)\<rparr>))"
  have "length (timers ?s) \<le> length (timers st)"
    by (simp add: timeoutCallback_def)
  with Cons.IH [of ?s] Cons.IH [of st] show ?case
    by (simp del: timers_caught)
qed

lemma timers_step: "notRender e \<Longrightarrow> length (timers (step env e st)) \<le> length (timers st)"
proof (cases e)
  case Commit
  then show ?thesis by (simp add: timers_commit)
next
  case (Advance n)
  then show ?thesis
    using timers_fireTimers [of "timers (st\<lparr>now := now st + n\<rparr>)" "st\<lparr>now := now st + n\<rparr>"]
    by (simp add: advance_def Let_def)
qed (simp_all add: notRender_def unmount_def pulse_def invalidate_def split: option.splits)

lemma timers_exec:
  "list_all notRender es \<Longrightarrow> length (timers (exec env es st)) \<le> length (timers st)"
proof (induction es arbitrary: st)
  case Nil
  show ?case by simp
next
  case (Cons e es)
  then have "length (timers (exec env es (step env e st))) \<le> length (timers (step env e st))"
    by simp
  moreover from Cons.prems have "length (timers (step env e st)) \<le> length (timers st)"
    by (simp add: timers_step)
  ultimately show ?case by simp
qed

lemma timers_first_render: "length (timers (render env p (init d))) \<le> 1"
proof -
  have a: "timers (snd (autorun env p (init d))) = []"
    using hostSame_timers [of "init d" "snd (autorun env p (init d))"] by (simp add: init_def)
  have t: "timers (snd (tracked env p None (init d))) = []"
    by (simp add: init_def)
  have d: "dispose (init d) = (Done, init d)"
    by (simp add: dispose_def stopComputation_def init_def)
  have i: "(init d)\<lparr>computation := None\<rparr> = init d" "memoDeps (init d) = None"
    by (simp_all add: init_def)
  show ?thesis
    using a t
    by (simp add: render_def useTracker_def useMemoCallback_def d i memoRuns_def case_prod_beta
        Let_def setTimeout_def
        split: outcome.splits sum.splits)
qed

lemma mounted_trackedRerun [simp]:
  "isMounted (snd (trackedRerun env p c st)) = isMounted st"
  by (simp add: trackedRerun_def case_prod_beta forceUpdate_def split: outcome.splits)

lemma mounted_tracked_iff:
  "isMounted (snd (tracked env p c st)) = Some True \<longleftrightarrow> isMounted st = Some True"
  by (simp add: tracked_def mounted_trackedFirstRun_iff split: option.splits)

lemma mounted_caught [simp]: "isMounted (caught r) = isMounted (snd r)"
  by (cases r) (simp add: caught_def split: outcome.splits)

lemma useMemoCallback_host:
  "timers (snd (useMemoCallback env p st)) = timers st
   \<or> (\<not> isServer env \<and> isMounted st \<noteq> Some True
      \<and> timers (snd (useMemoCallback env p st)) = timers st @ [(nextTimer st, now st + 50)])"
  "clearCalls (snd (useMemoCallback env p st)) = clearCalls st"
  "committed (snd (useMemoCallback env p st)) = committed st"
  "isMounted (snd (useMemoCallback env p st)) = Some True \<longleftrightarrow> isMounted st = Some True"
proof -
  let ?d = "snd (dispose st)"
  let ?t = "snd (tracked env p None (?d\<lparr>computation := None\<rparr>))"
  let ?a = "snd (autorun env p ?d)"
  have h: "hostSame st ?d" "hostSame st ?t" "hostSame st ?a"
    by simp_all
  have m: "isMounted ?a = Some True \<longleftrightarrow> isMounted st = Some True"
    "isMounted ?t = Some True \<longleftrightarrow> isMounted st = Some True"
    by (simp_all add: mounted_autorun_iff mounted_tracked_iff)
  have u: "snd (useMemoCallback env p st) =
      (case fst (dispose st) of
         Thrown e \<Rightarrow> ?d
       | Done \<Rightarrow>
           if isServer env then ?t
           else (case fst (autorun env p ?d) of
                   Inl e \<Rightarrow> ?a
                 | Inr c \<Rightarrow>
                     if isMounted ?a \<noteq> Some True
                     then setTimeout 50 (?a\<lparr>computation := Some c\<rparr>)
                     else ?a\<lparr>computation := Some c\<rparr>))"
    by (simp add: useMemoCallback_def case_prod_beta Let_def split: outcome.splits sum.splits)
  from h m show "timers (snd (useMemoCallback env p st)) = timers st
   \<or> (\<not> isServer env \<and> isMounted st \<noteq> Some True
      \<and> timers (snd (useMemoCallback env p st)) = timers st @ [(nextTimer st, now st + 50)])"
    by (subst (1 2) u) (simp add: hostSame_def setTimeout_def split: outcome.splits sum.splits)
  from h show "clearCalls (snd (useMemoCallback env p st)) = clearCalls st"
    by (subst u) (simp add: hostSame_def setTimeout_def split: outcome.splits sum.splits)
  from h show "committed (snd (useMemoCallback env p st)) = committed st"
    by (subst u) (simp add: hostSame_def setTimeout_def split: outcome.splits sum.splits)
  from m show "isMounted (snd (useMemoCallback env p st)) = Some True \<longleftrightarrow> isMounted st = Some True"
    by (subst u) (simp add: setTimeout_def split: outcome.splits sum.splits)
qed

lemma render_host:
  "length (timers (render env p st)) \<le>
     length (timers st) + (if schedules env (Render p) st then 1 else 0)"
  "clearCalls (render env p st) = clearCalls st"
  "committed (render env p st) = committed st"
  "isMounted (render env p st) = Some True \<longleftrightarrow> isMounted st = Some True"
proof -
  let ?m = "snd (useMemoCallback env p st)"
  have r: "timers (render env p st) = (if memoRuns (memoDeps st) (deps p) then timers ?m else timers st)"
    "clearCalls (render env p st) = (if memoRuns (memoDeps st) (deps p) then clearCalls ?m else clearCalls st)"
    "committed (render env p st) = (if memoRuns (memoDeps st) (deps p) then committed ?m else committed st)"
    "isMounted (render env p st) = (if memoRuns (memoDeps st) (deps p) then isMounted ?m else isMounted st)"
    by (simp_all add: render_def useTracker_def case_prod_beta split: outcome.splits)
  from useMemoCallback_host(1) [of env p st]
  show "length (timers (render env p st)) \<le>
     length (timers st) + (if schedules env (Render p) st then 1 else 0)"
    by (auto simp: r(1) schedules_def)
  show "clearCalls (render env p st) = clearCalls st"
    by (simp add: r(2) useMemoCallback_host)
  show "committed (render env p st) = committed st"
    by (simp add: r(3) useMemoCallback_host)
  show "isMounted (render env p st) = Some True \<longleftrightarrow> isMounted st = Some True"
    by (simp add: r(4) useMemoCallback_host)
qed

lemma hostSame_effect:
  "hostSame a st \<Longrightarrow> clearCalls st = clearCalls a \<and> committed st = committed a
     \<and> disposeId st = disposeId a"
  by (simp add: hostSame_def)

lemma useEffectCallback_mounted:
  "isMounted (snd (useEffectCallback env p st)) = Some True"
proof -
  let ?s2 = "(clearTimeout (disposeId st) (st\<lparr>isMounted := Some True\<rparr>))\<lparr>disposeId := None\<rparr>"
  let ?s3 = "snd (effectRestart env p ?s2)"
  have a: "isMounted (snd (autorun env p ?s2)) = Some True"
    by (simp add: mounted_autorun_iff clearTimeout_def)
  have s3: "isMounted ?s3 = Some True"
    using a by (simp add: effectRestart_def case_prod_beta clearTimeout_def split: sum.splits)
  have "isMounted (snd (effectReplay env p ?s3)) = Some True"
    using s3 by (simp add: effectReplay_def case_prod_beta forceUpdate_def split: outcome.splits)
  with s3 show ?thesis
    by (simp add: useEffectCallback_def Let_def case_prod_beta split: outcome.splits)
qed

lemma commit_host:
  "clearCalls (commit env st) =
     clearCalls st + (if \<not> isServer env \<and> \<not> committed st \<and> effectClosure st \<noteq> None
                      then 1 else 0)"
  "committed (commit env st) \<longleftrightarrow> committed st \<or> effectClosure st \<noteq> None"
  "isMounted st = Some True \<Longrightarrow> isMounted (commit env st) = Some True"
proof -
  have c: "clearCalls (snd (useEffectCallback env p s)) =
             (if isServer env then clearCalls s else Suc (clearCalls s))"
    "committed (snd (useEffectCallback env p s)) = committed s" for p s
  proof -
    show "clearCalls (snd (useEffectCallback env p s)) =
             (if isServer env then clearCalls s else Suc (clearCalls s))"
    proof (cases "isServer env")
      case True
      then show ?thesis by (simp add: useEffectCallback_def Let_def)
    next
      case False
      from hostSame_effect [OF useEffectCallback_host [OF False, of s p]] False show ?thesis
        by (simp add: clearTimeout_def)
    qed
    show "committed (snd (useEffectCallback env p s)) = committed s"
    proof (cases "isServer env")
      case True
      then show ?thesis by (simp add: useEffectCallback_def Let_def)
    next
      case False
      from hostSame_effect [OF useEffectCallback_host [OF False, of s p]] show ?thesis
        by (simp add: clearTimeout_def)
    qed
  qed
  show "clearCalls (commit env st) =
     clearCalls st + (if \<not> isServer env \<and> \<not> committed st \<and> effectClosure st \<noteq> None
                      then 1 else 0)"
    by (simp add: commit_def case_prod_beta c split: option.splits outcome.splits)
  show "committed (commit env st) \<longleftrightarrow> committed st \<or> effectClosure st \<noteq> None"
    by (simp add: commit_def case_prod_beta c split: option.splits outcome.splits)
  show "isMounted (commit env st) = Some True" if "isMounted st = Some True"
    using that
    by (simp add: commit_def case_prod_beta useEffectCallback_mounted
        split: option.splits outcome.splits)
qed

lemma caught_host [simp]:
  "clearCalls (caught r) = clearCalls (snd r)" "committed (caught r) = committed (snd r)"
  by (cases r; simp add: caught_def split: outcome.splits)+

lemma closure_host [simp]:
  "clearCalls (snd (dispose st)) = clearCalls st" "committed (snd (dispose st)) = committed st"
  "clearCalls (snd (tracked env p c st)) = clearCalls st"
  "committed (snd (tracked env p c st)) = committed st"
proof -
  have "hostSame st (snd (dispose st))" "hostSame st (snd (tracked env p c st))"
    by simp_all
  then show "clearCalls (snd (dispose st)) = clearCalls st"
    and "committed (snd (dispose st)) = committed st"
    and "clearCalls (snd (tracked env p c st)) = clearCalls st"
    and "committed (snd (tracked env p c st)) = committed st"
    by (simp_all add: hostSame_def)
qed

lemma fireTimers_host:
  "clearCalls (fireTimers ts st) = clearCalls st \<and> committed (fireTimers ts st) = committed st
   \<and> isMounted (fireTimers ts st) = isMounted st"
proof (induction ts arbitrary: st)
  case Nil
  show ?case by simp
next
  case (Cons t ts)
  let ?s = "caught (timeoutCallback (st\<lparr>timers := filter (\<lambda>u. fst u \<noteq> fst t) (timers st)\<rparr>))"
  have "clearCalls ?s = clearCalls st \<and> committed ?s = committed st \<and> isMounted ?s = isMounted st"
    by (simp add: timeoutCallback_def)
  with Cons.IH [of ?s] Cons.IH [of st] show ?case
    by simp
qed

lemma step_host:
  "length (timers (step env e st)) \<le>
     length (timers st) + (if schedules env e st then 1 else 0)"
  "e \<noteq> Commit \<Longrightarrow> clearCalls (step env e st) = clearCalls st"
  "e \<noteq> Commit \<Longrightarrow> committed (step env e st) = committed st"
  "isMounted st = Some True \<Longrightarrow> isMounted (step env e st) = Some True"
proof -
  show "length (timers (step env e st)) \<le>
     length (timers st) + (if schedules env e st then 1 else 0)"
  proof (cases "notRender e")
    case True
    from timers_step [OF True, of env st] show ?thesis by simp
  next
    case False
    then obtain p where "e = Render p"
      by (cases e) (simp_all add: notRender_def)
    with render_host(1) [of env p st] show ?thesis by simp
  qed
  have f: "clearCalls (advance n st) = clearCalls st \<and> committed (advance n st) = committed st
      \<and> isMounted (advance n st) = isMounted st" for n
    using fireTimers_host [of "timers st" "st\<lparr>now := now st + n\<rparr>"]
    by (simp add: advance_def Let_def)
  show "clearCalls (step env e st) = clearCalls st" if "e \<noteq> Commit"
    using that f
    by (cases e)
       (simp_all add: render_host unmount_def pulse_def invalidate_def split: option.splits)
  show "committed (step env e st) = committed st" if "e \<noteq> Commit"
    using that f
    by (cases e)
       (simp_all add: render_host unmount_def pulse_def invalidate_def split: option.splits)
  show "isMounted (step env e st) = Some True" if "isMounted st = Some True"
    using that f
    by (cases e)
       (simp_all add: render_host commit_host unmount_def pulse_def invalidate_def
          mounted_tracked_iff split: option.splits)
qed

lemma recreations_mounted: "isMounted st = Some True \<Longrightarrow> recreations env es st = 0"
proof (induction es arbitrary: st)
  case Nil
  show ?case by simp
next
  case (Cons e es)
  from Cons.prems have "\<not> schedules env e st"
    by (simp add: schedules_def split: event.splits)
  with Cons.IH [OF step_host(4) [OF Cons.prems]] show ?case
    by simp
qed

lemma timers_recreations:
  "length (timers (exec env es st)) \<le> length (timers st) + recreations env es st"
proof (induction es arbitrary: st)
  case Nil
  show ?case by simp
next
  case (Cons e es)
  from Cons.IH [of "step env e st"] step_host(1) [of env e st] show ?case
    by simp
qed

lemma recreations_prefix: "recreations env es st \<le> recreations env (es @ fs) st"
  by (induction es arbitrary: st) simp_all

lemma cancelled_once:
  assumes "clearCalls st = (if committed st \<and> \<not> isServer env then 1 else 0)"
  shows "clearCalls (step env e st) = (if committed (step env e st) \<and> \<not> isServer env then 1 else 0)"
proof (cases "e = Commit")
  case True
  with assms commit_host(1,2) [of env st] show ?thesis
    by auto
next
  case False
  with assms step_host(2,3) [OF False, of env st] show ?thesis
    by simp
qed

lemma cancelled_once_exec:
  "clearCalls st = (if committed st \<and> \<not> isServer env then 1 else 0) \<Longrightarrow>
   clearCalls (exec env es st) = (if committed (exec env es st) \<and> \<not> isServer env then 1 else 0)"
proof (induction es arbitrary: st)
  case Nil
  then show ?case by simp
next
  case (Cons e es)
  from Cons.IH [OF cancelled_once [OF Cons.prems]] show ?case
    by simp
qed

text \<open>
  C8, as the code has it. No step but the commit calls \<^verbatim>\<open>clearTimeout\<close>: \<open>dispose\<close>
  cancels no timer and leaves the stored handle alone. The post-commit effect in the
  browser calls \<^verbatim>\<open>clearTimeout\<close> once, on the handle stored last, which is then no
  longer pending, and empties the slot; over the life of an instance that is one call if
  the effect has run in the browser and none otherwise. A timer is scheduled only by a
  render pass that recreates the computation in the browser while \<open>isMounted\<close> is not
  \<^verbatim>\<open>true\<close>: the timers pending after any sequence of events are at most those pending
  before plus the number of such passes, none of which happens once \<open>isMounted\<close> is
  \<^verbatim>\<open>true\<close>. So at most one leak-guard timer is pending at any time of a life in which
  at most one such pass happens.
\<close>

theorem leak_guard_timer_cancellation:
  "timers (snd (dispose st)) = timers st
   \<and> clearCalls (snd (dispose st)) = clearCalls st
   \<and> disposeId (snd (dispose st)) = disposeId st
   \<and> (e \<noteq> Commit \<longrightarrow> clearCalls (step env e st) = clearCalls st)
   \<and> clearCalls (step env Commit st) =
       clearCalls st + (if \<not> isServer env \<and> \<not> committed st \<and> effectClosure st \<noteq> None
                        then 1 else 0)
   \<and> clearCalls (exec env es (init d)) =
       (if committed (exec env es (init d)) \<and> \<not> isServer env then 1 else 0)
   \<and> (\<not> isServer env \<longrightarrow>
        clearCalls (snd (useEffectCallback env p st)) = Suc (clearCalls st)
        \<and> disposeId (snd (useEffectCallback env p st)) = None
        \<and> timers (snd (useEffectCallback env p st)) =
            filter (\<lambda>t. Some (fst t) \<noteq> disposeId st) (timers st))
   \<and> length (timers (step env e st)) \<le>
       length (timers st) + (if schedules env e st then 1 else 0)
   \<and> length (timers (exec env es st)) \<le> length (timers st) + recreations env es st
   \<and> (isMounted st = Some True \<longrightarrow>
        recreations env es st = 0 \<and> length (timers (exec env es st)) \<le> length (timers st))
   \<and> (recreations env (es @ fs) (init d) \<le> 1 \<longrightarrow>
        length (timers (exec env es (init d))) \<le> 1)
   \<and> (list_all notRender es \<longrightarrow> length (timers (exec env es (render env q (init d)))) \<le> 1)"
proof (intro conjI impI)
  have "hostSame st (snd (dispose st))"
    by simp
  then show "timers (snd (dispose st)) = timers st"
    and "clearCalls (snd (dispose st)) = clearCalls st"
    and "disposeId (snd (dispose st)) = disposeId st"
    by (simp_all add: hostSame_def)
next
  assume "e \<noteq> Commit"
  then show "clearCalls (step env e st) = clearCalls st"
    by (rule step_host(2))
next
  show "clearCalls (step env Commit st) =
       clearCalls st + (if \<not> isServer env \<and> \<not> committed st \<and> effectClosure st \<noteq> None
                        then 1 else 0)"
    by (simp add: commit_host(1))
next
  show "clearCalls (exec env es (init d)) =
       (if committed (exec env es (init d)) \<and> \<not> isServer env then 1 else 0)"
    by (rule cancelled_once_exec) (simp add: init_def)
next
  assume "\<not> isServer env"
  from useEffectCallback_host [OF this, of st p]
  show "clearCalls (snd (useEffectCallback env p st)) = Suc (clearCalls st)"
    and "disposeId (snd (useEffectCallback env p st)) = None"
    and "timers (snd (useEffectCallback env p st)) =
            filter (\<lambda>t. Some (fst t) \<noteq> disposeId st) (timers st)"
    by (simp_all add: hostSame_def clearTimeout_def)
next
  show "length (timers (step env e st)) \<le>
       length (timers st) + (if schedules env e st then 1 else 0)"
    by (rule step_host(1))
next
  show "length (timers (exec env es st)) \<le> length (timers st) + recreations env es st"
    by (rule timers_recreations)
next
  assume m: "isMounted st = Some True"
  show "recreations env es st = 0"
    by (rule recreations_mounted [OF m])
  with timers_recreations [of env es st]
  show "length (timers (exec env es st)) \<le> length (timers st)"
    by simp
next
  assume "recreations env (es @ fs) (init d) \<le> 1"
  with timers_recreations [of env es "init d"] recreations_prefix [of env es "init d" fs]
  show "length (timers (exec env es (init d))) \<le> 1"
    by (simp add: init_def)
next
  assume "list_all notRender es"
  from timers_exec [OF this, of env "render env q (init d)"] timers_first_render [of env q d]
  show "length (timers (exec env es (render env q (init d)))) \<le> 1"
    by simp
qed

theorem leak_guard_timer_cancellation_witness:
  "recreations browser
     [Render (reader [1]), Render (reader [1]), Pulse 0, Commit, Render (reader [2]), Advance 10]
     (init 0) = 1
   \<and> timers (exec browser [Render (reader [1]), Render (reader [1]), Pulse 0] (init 0))
       = [(0, 50)]
   \<and> timers (exec browser
       [Render (reader [1]), Render (reader [1]), Pulse 0, Commit, Render (reader [2]), Advance 10]
       (init 0)) = []
   \<and> clearCalls (exec browser
       [Render (reader [1]), Render (reader [1]), Pulse 0, Commit, Render (reader [2]), Advance 10]
       (init 0)) = 1
   \<and> stopCalls (exec browser
       [Render (reader [1]), Render (reader [1]), Pulse 0, Commit, Render (reader [2]), Advance 10]
       (init 0)) = [0]
   \<and> timers (snd (useEffectCallback browser (reader [1])
                     (exec browser [Render (reader [1])] (init 0)))) = []
   \<and> isMounted (exec browser [Render (reader [1]), Commit] (init 0)) = Some True
   \<and> recreations browser [Pulse 0, Advance 10, Commit, Unmount]
         (exec browser [Render (reader [1]), Commit] (init 0)) = 0
   \<and> list_all notRender [Pulse 0, Advance 10, Commit, Unmount]
   \<and> length (timers (exec browser [Pulse 0, Advance 10, Commit, Unmount]
                        (render browser (reader [1]) (init 0)))) \<le> 1"
  using leak_guard_timer_cancellation
    [where st = "exec browser [Render (reader [1])] (init 0)" and e = "Pulse 0"
       and env = browser and es = "[Render (reader [1]), Render (reader [1]), Pulse 0]"
       and fs = "[Commit, Render (reader [2]), Advance 10]" and d = 0
       and p = "reader [1]" and q = "reader [1]"]
    leak_guard_timer_cancellation
    [where st = "exec browser [Render (reader [1]), Commit] (init 0)"
       and e = "Render (reader [2])" and env = browser
       and es = "[Pulse 0, Advance 10, Commit, Unmount]" and fs = "[]" and d = 0
       and p = "reader [1]" and q = "reader [1]"]
  by (simp add: hook_defs event_defs example_defs notRender_def schedules_def)

text \<open>
  C8, as the claim states it, fails: two render passes before the commit leave two
  leak-guard timers pending at once, although \<open>dispose\<close> has run in between; the commit
  cancels the second, and the first is still pending after it. And the timer of a render
  that is never committed is not cancelled at all: it expires, and \<open>dispose\<close> runs at
  its expiry.
\<close>

theorem leak_guard_timer_counterexample:
  "timers (exec browser [Render (reader [1]), Render (reader [2])] (init 0))
     = [(0, 50), (1, 50)]
   \<and> stopCalls (exec browser [Render (reader [1]), Render (reader [2])] (init 0)) = [0]
   \<and> clearCalls (exec browser [Render (reader [1]), Render (reader [2])] (init 0)) = 0
   \<and> timers (exec browser [Render (reader [1]), Render (reader [2]), Commit] (init 0))
     = [(0, 50)]
   \<and> clearCalls (exec browser [Render (reader [1]), Render (reader [2]), Commit] (init 0)) = 1
   \<and> timers (exec browser [Render (reader [1]), Advance 50] (init 0)) = []
   \<and> stopCalls (exec browser [Render (reader [1]), Advance 50] (init 0)) = [0]
   \<and> clearCalls (exec browser [Render (reader [1]), Advance 50] (init 0)) = 0"
  by (simp add: hook_defs event_defs example_defs)

subsection \<open>Invalidations before the commit\<close>

lemma neverThrows_fn: "neverThrows p \<Longrightarrow> \<exists>v. reactiveFn p c d = Inr v"
  unfolding neverThrows_def by blast

lemma neverThrows_handler:
  "neverThrows p \<Longrightarrow> computationHandler p = Some h \<Longrightarrow> \<exists>r. h c = Inr r"
  unfolding neverThrows_def by blast

lemma attachHandler_returns:
  assumes "neverThrows p"
  shows "fst (attachHandler env p c st) = Done"
proof (cases "computationHandler p")
  case None
  then show ?thesis by (simp add: attachHandler_None)
next
  case (Some h)
  with neverThrows_handler [OF assms Some, of c] show ?thesis
    by (auto simp: attachHandler_Inr)
qed

lemma runReactiveFn_returns:
  assumes "neverThrows p"
  shows "fst (runReactiveFn env p c st) = Done"
  using neverThrows_fn [OF assms, of c "source st"]
  by (auto simp: runReactiveFn_Inr)

lemma trackedFirstRun_returns:
  "neverThrows p \<Longrightarrow> fst (trackedFirstRun env p c st) = Done"
  by (simp add: trackedFirstRun_def case_prod_beta attachHandler_returns runReactiveFn_returns
      split: outcome.splits)

lemma autorun_returns:
  "neverThrows p \<Longrightarrow> fst (autorun env p st) = Inr (nextComp st)"
  using trackedFirstRun_returns [of p env "Some (Handle (nextComp st) True)"]
  by (simp add: autorun_def tracked_def Let_def case_prod_beta split: outcome.splits)

lemma rerun_unmounted:
  "isArray (deps p) \<Longrightarrow> isMounted st \<noteq> Some True \<Longrightarrow>
   tracked env p (Some (Handle n False)) st = (Done, st\<lparr>doDeferredRender := Some True\<rparr>)"
  by (simp add: tracked_def trackedRerun_def)

lemma first_render_awaits:
  assumes "\<not> isServer env" and "neverThrows p"
  shows "awaitingCommit p (render env p (init d))"
    and "doDeferredRender (render env p (init d)) = Some False"
proof -
  from neverThrows_fn [OF assms(2)] obtain v where
    v: "reactiveFn p (Some (Handle 0 True)) d = Inr v"
    by blast
  have r: "\<exists>r. computationHandler p = Some h \<longrightarrow> h (Some (Handle 0 True)) = Inr r" for h
    using neverThrows_handler [OF assms(2), of h] by blast
  have "awaitingCommit p (render env p (init d))
        \<and> doDeferredRender (render env p (init d)) = Some False"
  proof (cases "computationHandler p")
    case None
    with assms(1) v show ?thesis
      by (simp add: awaitingCommit_def render_def useTracker_def useMemoCallback_def
          dispose_def stopComputation_def autorun_def tracked_def trackedFirstRun_def
          attachHandler_None runReactiveFn_Inr setTimeout_def memoRuns_def init_def Let_def)
  next
    case (Some h)
    with r [of h] obtain r where "h (Some (Handle 0 True)) = Inr r"
      by blast
    with Some assms(1) v show ?thesis
      by (simp add: awaitingCommit_def render_def useTracker_def useMemoCallback_def
          dispose_def stopComputation_def autorun_def tracked_def trackedFirstRun_def
          attachHandler_Inr runReactiveFn_Inr setTimeout_def memoRuns_def init_def Let_def)
  qed
  then show "awaitingCommit p (render env p (init d))"
    and "doDeferredRender (render env p (init d)) = Some False"
    by simp_all
qed

lemma awaiting_caught_dispose:
  "awaitingCommit p (caught (dispose st)) = awaitingCommit p st"
  "doDeferredRender (caught (dispose st)) = doDeferredRender st"
proof -
  have h: "hostSame st (snd (dispose st))"
    by simp
  obtain out s where d: "dispose st = (out, s)"
    by (cases "dispose st")
  from h d have "committed s = committed st" "effectClosure s = effectClosure st"
    by (simp_all add: hostSame_def)
  moreover from dispose_keeps [of st] d have "isMounted s = isMounted st"
    "forceUpdates s = forceUpdates st" "fnCalls s = fnCalls st" "closures s = closures st"
    "doDeferredRender s = doDeferredRender st"
    by simp_all
  ultimately show "awaitingCommit p (caught (dispose st)) = awaitingCommit p st"
    and "doDeferredRender (caught (dispose st)) = doDeferredRender st"
    by (simp_all add: d caught_def awaitingCommit_def split: outcome.splits)
qed

lemma awaiting_fireTimers:
  "awaitingCommit p st \<Longrightarrow>
   awaitingCommit p (fireTimers ts st)
   \<and> doDeferredRender (fireTimers ts st) = doDeferredRender st"
proof (induction ts arbitrary: st)
  case Nil
  then show ?case by simp
next
  case (Cons t ts)
  let ?s = "st\<lparr>timers := filter (\<lambda>u. fst u \<noteq> fst t) (timers st)\<rparr>"
  from Cons.prems have a: "awaitingCommit p ?s" "isMounted ?s \<noteq> Some True"
    by (simp_all add: awaitingCommit_def)
  then have "awaitingCommit p (caught (timeoutCallback ?s))"
    "doDeferredRender (caught (timeoutCallback ?s)) = doDeferredRender st"
    by (simp_all add: timeoutCallback_def awaiting_caught_dispose)
  with Cons.IH [of "caught (timeoutCallback ?s)"] Cons.IH [of st] Cons.prems show ?case
    by simp
qed

lemma awaiting_step:
  assumes "awaitingCommit p st" and "isArray (deps p)" and "preCommit e"
  shows "awaitingCommit p (step env e st)"
    and "doDeferredRender st = Some True \<Longrightarrow> doDeferredRender (step env e st) = Some True"
    and "e = Pulse 0 \<Longrightarrow> doDeferredRender (step env e st) = Some True"
proof -
  have p: "pulse env c st = st \<or> pulse env c st = st\<lparr>doDeferredRender := Some True\<rparr>" for c
  proof (cases "closures st c")
    case None
    then show ?thesis by (simp add: pulse_def)
  next
    case (Some q)
    with assms(1) have "q = p" "isMounted st \<noteq> Some True"
      by (auto simp: awaitingCommit_def)
    with Some assms(2) show ?thesis
      by (simp add: pulse_def rerun_unmounted caught_def)
  qed
  have p0: "pulse env 0 st = st\<lparr>doDeferredRender := Some True\<rparr>"
    using assms(1,2) by (simp add: pulse_def awaitingCommit_def rerun_unmounted caught_def)
  have w: "awaitingCommit p (st\<lparr>doDeferredRender := f\<rparr>)" for f
    using assms(1) by (simp add: awaitingCommit_def)
  have t: "awaitingCommit p (advance n st)
           \<and> doDeferredRender (advance n st) = doDeferredRender st" for n
    using awaiting_fireTimers [of p "st\<lparr>now := now st + n\<rparr>" "timers st"] assms(1)
    by (simp add: advance_def Let_def awaitingCommit_def)
  show "awaitingCommit p (step env e st)"
  proof (cases e)
    case (Pulse c)
    with p [of c] w assms(1) show ?thesis by auto
  next
    case (Invalidate c)
    with p [of c] w assms(1) show ?thesis by (auto simp: invalidate_def)
  next
    case (Advance n)
    with t show ?thesis by simp
  next
    case (SetSource d)
    with assms(1) show ?thesis by (simp add: awaitingCommit_def)
  qed (use assms(3) in \<open>simp_all add: preCommit_def\<close>)
  show "doDeferredRender (step env e st) = Some True" if "doDeferredRender st = Some True"
  proof (cases e)
    case (Pulse c)
    with p [of c] that show ?thesis by auto
  next
    case (Invalidate c)
    with p [of c] that show ?thesis by (auto simp: invalidate_def)
  next
    case (Advance n)
    with t that show ?thesis by simp
  next
    case (SetSource d)
    with that show ?thesis by simp
  qed (use assms(3) in \<open>simp_all add: preCommit_def\<close>)
  show "doDeferredRender (step env e st) = Some True" if "e = Pulse 0"
    using that p0 by simp
qed

lemma awaiting_exec:
  assumes "isArray (deps p)" and "list_all preCommit es" and "awaitingCommit p st"
  shows "awaitingCommit p (exec env es st)"
    and "doDeferredRender st = Some True \<or> Pulse 0 \<in> set es \<Longrightarrow>
         doDeferredRender (exec env es st) = Some True"
proof -
  have "awaitingCommit p (exec env es st)
        \<and> (doDeferredRender st = Some True \<or> Pulse 0 \<in> set es \<longrightarrow>
           doDeferredRender (exec env es st) = Some True)"
    using assms(2,3)
  proof (induction es arbitrary: st)
    case Nil
    then show ?case by simp
  next
    case (Cons e es)
    from Cons.prems have e: "preCommit e" and es: "list_all preCommit es"
      by simp_all
    note s = awaiting_step [OF Cons.prems(2) assms(1) e, of env]
    from Cons.IH [OF es s(1)] s(2,3) show ?case
      by auto
  qed
  then show "awaitingCommit p (exec env es st)"
    and "doDeferredRender st = Some True \<or> Pulse 0 \<in> set es \<Longrightarrow>
         doDeferredRender (exec env es st) = Some True"
    by simp_all
qed

lemma effectRestart_returns:
  assumes "neverThrows p"
  shows "fst (effectRestart env p st) = Done"
    and "forceUpdates (snd (effectRestart env p st)) = forceUpdates st"
    and "source (snd (effectRestart env p st)) = source st"
    and "doDeferredRender st = Some True \<Longrightarrow>
         doDeferredRender (snd (effectRestart env p st)) = Some True"
proof -
  show r: "fst (effectRestart env p st) = Done"
    by (simp add: effectRestart_def case_prod_beta autorun_returns [OF assms])
  consider c where "computation st = Some c"
    | "computation st = None" "isArray (deps p)"
    | "computation st = None" "\<not> isArray (deps p)"
    by (cases "computation st") auto
  then have "forceUpdates (snd (effectRestart env p st)) = forceUpdates st
        \<and> source (snd (effectRestart env p st)) = source st
        \<and> (doDeferredRender st = Some True \<longrightarrow>
            doDeferredRender (snd (effectRestart env p st)) = Some True)"
  proof cases
    case 1
    then show ?thesis by (simp add: effectRestart_present)
  next
    case 2
    from effectRestart_array [OF 2 r] show ?thesis by simp
  next
    case 3
    then show ?thesis by (simp add: effectRestart_not_array)
  qed
  then show "forceUpdates (snd (effectRestart env p st)) = forceUpdates st"
    and "source (snd (effectRestart env p st)) = source st"
    and "doDeferredRender st = Some True \<Longrightarrow>
         doDeferredRender (snd (effectRestart env p st)) = Some True"
    by simp_all
qed

lemma effect_replays:
  assumes client: "\<not> isServer env" and total: "neverThrows p"
    and pending: "doDeferredRender st = Some True"
  shows "fst (useEffectCallback env p st) = Done
       \<and> forceUpdates (snd (useEffectCallback env p st)) = Suc (forceUpdates st)
       \<and> doDeferredRender (snd (useEffectCallback env p st)) = None
       \<and> source (snd (useEffectCallback env p st)) = source st
       \<and> (\<exists>v. reactiveFn p
                 (map_option (\<lambda>c. Handle c False) (computation (snd (useEffectCallback env p st))))
                 (source st) = Inr v
              \<and> trackerData (snd (useEffectCallback env p st)) = Some v)"
proof -
  let ?s2 = "(clearTimeout (disposeId st) (st\<lparr>isMounted := Some True\<rparr>))\<lparr>disposeId := None\<rparr>"
  let ?s3 = "snd (effectRestart env p ?s2)"
  have s2: "doDeferredRender ?s2 = Some True" "forceUpdates ?s2 = forceUpdates st"
    "source ?s2 = source st"
    using pending by (simp_all add: clearTimeout_def)
  note r = effectRestart_returns [OF total, where env = env and st = ?s2]
  have s3: "doDeferredRender ?s3 = Some True" "forceUpdates ?s3 = forceUpdates st"
    "source ?s3 = source st"
    using r s2 by simp_all
  have replayed: "fst (effectReplay env p ?s3) = Done"
    by (simp add: effectReplay_def case_prod_beta s3 runReactiveFn_returns [OF total])
  from effectReplay_pending [OF s3(1) replayed] obtain v where
    v: "reactiveFn p (map_option (\<lambda>c. Handle c False) (computation ?s3)) (source ?s3) = Inr v"
    and s4: "snd (effectReplay env p ?s3) =
               ?s3\<lparr>fnCalls := Suc (fnCalls ?s3),
                  warnings := (if isDevelopment env \<and> hasCursor env v
                               then Suc (warnings ?s3) else warnings ?s3),
                  trackerData := Some v,
                  forceUpdates := Suc (forceUpdates ?s3),
                  doDeferredRender := None\<rparr>"
    by blast
  have u: "useEffectCallback env p st = effectReplay env p ?s3"
    using client r(1) by (simp add: useEffectCallback_def Let_def case_prod_beta)
  show ?thesis
    using v replayed by (simp add: u s4 s3(2,3))
qed

lemma exec_append: "exec env (es @ fs) st = exec env fs (exec env es st)"
  by (induction es arbitrary: st) simp_all

lemma commit_awaiting:
  assumes "awaitingCommit p st"
  shows "commit env st =
           (case useEffectCallback env p (st\<lparr>committed := True\<rparr>) of
              (Thrown e, st1) \<Rightarrow> st1\<lparr>thrown := e # thrown st1\<rparr>
            | (Done, st1) \<Rightarrow> st1\<lparr>unmountAction := True\<rparr>)"
  using assms by (simp add: commit_def awaitingCommit_def)

text \<open>
  C2 (deferred replay). A later run of \<open>tracked\<close> with array dependencies while
  \<open>isMounted\<close> is not \<^verbatim>\<open>true\<close> only sets the deferred-render flag. In the browser, with
  callbacks that return, after the first render pass and any sequence of runs of the
  computation, timer expiries and data changes that contains a run of the computation,
  nothing has been requested and \<open>reactiveFn\<close> has run once; the commit then requests
  exactly one re-render, clears the flag, and leaves in \<open>cachedResult\<close> the value of
  \<open>reactiveFn\<close> on the computation of the slot and the data as they are at the commit.
\<close>

theorem deferred_replay:
  "(isArray (deps p) \<and> isMounted st \<noteq> Some True \<longrightarrow>
      tracked env p (Some (Handle n False)) st = (Done, st\<lparr>doDeferredRender := Some True\<rparr>))
   \<and> (\<not> isServer env \<and> isArray (deps p) \<and> neverThrows p
        \<and> list_all preCommit es \<and> Pulse 0 \<in> set es \<longrightarrow>
      forceUpdates (exec env es (render env p (init d))) = 0
      \<and> fnCalls (exec env es (render env p (init d))) = 1
      \<and> doDeferredRender (exec env es (render env p (init d))) = Some True
      \<and> forceUpdates (exec env (es @ [Commit]) (render env p (init d))) = 1
      \<and> doDeferredRender (exec env (es @ [Commit]) (render env p (init d))) = None
      \<and> (\<exists>v. reactiveFn p
                (map_option (\<lambda>c. Handle c False)
                   (computation (exec env (es @ [Commit]) (render env p (init d)))))
                (source (exec env es (render env p (init d)))) = Inr v
             \<and> trackerData (exec env (es @ [Commit]) (render env p (init d))) = Some v))"
proof (intro conjI impI)
  assume "isArray (deps p) \<and> isMounted st \<noteq> Some True"
  then show "tracked env p (Some (Handle n False)) st =
               (Done, st\<lparr>doDeferredRender := Some True\<rparr>)"
    by (simp add: rerun_unmounted)
next
  assume "\<not> isServer env \<and> isArray (deps p) \<and> neverThrows p
        \<and> list_all preCommit es \<and> Pulse 0 \<in> set es"
  then have client: "\<not> isServer env" and array: "isArray (deps p)" and total: "neverThrows p"
    and es: "list_all preCommit es" and pulsed: "Pulse 0 \<in> set es"
    by simp_all
  let ?s = "exec env es (render env p (init d))"
  have fin: "exec env (es @ [Commit]) (render env p (init d)) = commit env ?s"
    by (simp add: exec_append)
  note f = first_render_awaits [OF client total, where d = d]
  note a = awaiting_exec [OF array es f(1), where env = env]
  from a(2) pulsed have pending: "doDeferredRender ?s = Some True"
    by simp
  from a(1) show "forceUpdates ?s = 0" and "fnCalls ?s = 1"
    by (simp_all add: awaitingCommit_def)
  from pending show "doDeferredRender ?s = Some True" .
  let ?t = "?s\<lparr>committed := True\<rparr>"
  have t: "doDeferredRender ?t = Some True" "forceUpdates ?t = 0" "source ?t = source ?s"
    using pending a(1) by (simp_all add: awaitingCommit_def)
  note e = effect_replays [OF client total t(1)]
  have c: "commit env ?s = (snd (useEffectCallback env p ?t))\<lparr>unmountAction := True\<rparr>"
    using e by (simp add: commit_awaiting [OF a(1)] case_prod_beta)
  show "forceUpdates (exec env (es @ [Commit]) (render env p (init d))) = 1"
    using e t by (simp add: fin c)
  show "doDeferredRender (exec env (es @ [Commit]) (render env p (init d))) = None"
    using e by (simp add: fin c)
  show "\<exists>v. reactiveFn p
                (map_option (\<lambda>c. Handle c False)
                   (computation (exec env (es @ [Commit]) (render env p (init d)))))
                (source (exec env es (render env p (init d)))) = Inr v
             \<and> trackerData (exec env (es @ [Commit]) (render env p (init d))) = Some v"
    using e t by (simp add: fin c)
qed

theorem deferred_replay_witness:
  "forceUpdates (exec browser [SetSource 5, Pulse 0, Pulse 0] (render browser (reader [1]) (init 1)))
     = 0
   \<and> trackerData (exec browser [SetSource 5, Pulse 0, Pulse 0] (render browser (reader [1]) (init 1)))
     = Some 1
   \<and> forceUpdates (exec browser ([SetSource 5, Pulse 0, Pulse 0] @ [Commit])
                     (render browser (reader [1]) (init 1))) = 1
   \<and> trackerData (exec browser ([SetSource 5, Pulse 0, Pulse 0] @ [Commit])
                     (render browser (reader [1]) (init 1))) = Some 5
   \<and> doDeferredRender (exec browser ([SetSource 5, Pulse 0, Pulse 0] @ [Commit])
                         (render browser (reader [1]) (init 1))) = None"
proof -
  have "neverThrows (reader [1])"
    by (simp add: neverThrows_def reader_def)
  moreover have "list_all preCommit [SetSource 5, Pulse 0, Pulse (0::nat) :: (int, int) event]"
    by (simp add: preCommit_def)
  ultimately show ?thesis
    using deferred_replay [of "reader [1]" "render browser (reader [1]) (init 1)" browser 0
        "[SetSource 5, Pulse 0, Pulse 0]" 1]
    by (simp add: hook_defs event_defs example_defs)
qed

subsection \<open>A render that is never committed\<close>

lemma timer_scheduled:
  assumes "\<not> isServer env" and "isMounted st \<noteq> Some True"
    and "fst (useMemoCallback env p st) = Done"
  shows "timers (snd (useMemoCallback env p st)) = timers st @ [(nextTimer st, now st + 50)]"
    and "disposeId (snd (useMemoCallback env p st)) = Some (nextTimer st)"
proof -
  note m = useMemoCallback_client [OF assms(1,3)]
  have h: "hostSame st (snd (autorun env p (snd (dispose st))))"
    by simp
  have u: "isMounted (snd (autorun env p (snd (dispose st)))) \<noteq> Some True"
    using assms(2) by (simp add: mounted_autorun_iff)
  from h u show "timers (snd (useMemoCallback env p st)) = timers st @ [(nextTimer st, now st + 50)]"
    and "disposeId (snd (useMemoCallback env p st)) = Some (nextTimer st)"
    by (simp_all add: m(2) Let_def setTimeout_def hostSame_def)
qed

lemma first_render_guarded:
  assumes "\<not> isServer env" and "neverThrows p" and "cleanupReturns p"
  shows "guarded p (t0 + 50) (render env p ((init d)\<lparr>now := t0\<rparr>))"
    and "timers (render env p ((init d)\<lparr>now := t0\<rparr>)) = [(0, t0 + 50)]"
    and "computation (render env p ((init d)\<lparr>now := t0\<rparr>)) = Some 0"
    and "stopCalls (render env p ((init d)\<lparr>now := t0\<rparr>)) = []"
proof -
  let ?r = "render env p ((init d)\<lparr>now := t0\<rparr>)"
  from neverThrows_fn [OF assms(2)] obtain v where
    v: "reactiveFn p (Some (Handle 0 True)) d = Inr v"
    by blast
  have "isMounted ?r = Some False \<and> \<not> unmountAction ?r \<and> nextComp ?r = 1
      \<and> closures ?r = [0 \<mapsto> p]
      \<and> (\<forall>k. computationCleanup ?r = Some k \<longrightarrow> callCleanup k = None)
      \<and> computation ?r = Some 0 \<and> stopCalls ?r = []
      \<and> timers ?r = [(0, t0 + 50)] \<and> now ?r < t0 + 50"
  proof (cases "computationHandler p")
    case None
    with assms(1) v show ?thesis
      by (simp add: render_def useTracker_def useMemoCallback_def
          dispose_def stopComputation_def autorun_def tracked_def trackedFirstRun_def
          attachHandler_None runReactiveFn_Inr setTimeout_def memoRuns_def init_def Let_def)
  next
    case (Some h)
    with neverThrows_handler [OF assms(2) Some] obtain r where
      r: "h (Some (Handle 0 True)) = Inr r"
      by blast
    with assms(3) Some have "\<forall>k. r = Some k \<longrightarrow> callCleanup k = None"
      by (auto simp: cleanupReturns_def)
    with r Some assms(1) v show ?thesis
      by (simp add: render_def useTracker_def useMemoCallback_def
          dispose_def stopComputation_def autorun_def tracked_def trackedFirstRun_def
          attachHandler_Inr runReactiveFn_Inr setTimeout_def memoRuns_def init_def Let_def
          split: option.splits)
  qed
  then show "guarded p (t0 + 50) ?r" and "timers ?r = [(0, t0 + 50)]"
    and "computation ?r = Some 0" and "stopCalls ?r = []"
    by (simp_all add: guarded_def)
qed

lemma disposedOnce_dispose:
  assumes "disposedOnce p st"
  shows "disposedOnce p (caught (dispose st))" and "now (caught (dispose st)) = now st"
  using assms by (simp_all add: disposedOnce_def dispose_empty caught_def)

lemma disposedOnce_fireTimers:
  "disposedOnce p st \<Longrightarrow>
   disposedOnce p (fireTimers ts st) \<and> now (fireTimers ts st) = now st"
proof (induction ts arbitrary: st)
  case Nil
  then show ?case by simp
next
  case (Cons t ts)
  let ?s = "st\<lparr>timers := filter (\<lambda>u. fst u \<noteq> fst t) (timers st)\<rparr>"
  from Cons.prems have a: "disposedOnce p ?s" "isMounted ?s \<noteq> Some True"
    by (simp_all add: disposedOnce_def)
  with disposedOnce_dispose [OF a(1)]
  have "disposedOnce p (caught (timeoutCallback ?s))" "now (caught (timeoutCallback ?s)) = now st"
    by (simp_all add: timeoutCallback_def)
  with Cons.IH [of "caught (timeoutCallback ?s)"] Cons.IH [of st] Cons.prems show ?case
    by simp
qed

lemma live_dispose:
  assumes "isMounted st = Some False" and "\<not> unmountAction st" and "nextComp st = 1"
    and "closures st = [0 \<mapsto> p]"
    and "\<forall>k. computationCleanup st = Some k \<longrightarrow> callCleanup k = None"
    and "computation st = Some 0" and "stopCalls st = []"
  shows "disposedOnce p (caught (dispose st))" and "now (caught (dispose st)) = now st"
proof -
  from assms(5) have "fst (dispose st) = Done"
    by (simp add: dispose_returns)
  from dispose_Done [OF this] assms
  show "disposedOnce p (caught (dispose st))" and "now (caught (dispose st)) = now st"
    by (simp_all add: disposedOnce_def caught_def)
qed

lemma guarded_dispose:
  assumes "guarded p due st"
  shows "disposedOnce p (caught (dispose st))"
proof (cases "disposedOnce p st")
  case True
  then show ?thesis by (rule disposedOnce_dispose)
next
  case False
  with assms show ?thesis
    by (intro live_dispose) (simp_all add: guarded_def)
qed

lemma guarded_pulse:
  assumes "guarded p due st"
  shows "guarded p due (pulse env c st)"
proof (cases "c = 0")
  case False
  with assms have "closures st c = None"
    by (auto simp: guarded_def disposedOnce_def)
  then show ?thesis
    using assms by (simp add: pulse_def)
next
  case True
  with assms have c: "closures st c = Some p" and u: "isMounted st \<noteq> Some True"
    by (auto simp: guarded_def disposedOnce_def)
  show ?thesis
  proof (cases "isArray (deps p)")
    case True
    with c u assms show ?thesis
      by (auto simp: pulse_def rerun_unmounted caught_def guarded_def disposedOnce_def)
  next
    case False
    from assms have d: "fst (dispose st) = Done"
      by (auto simp: guarded_def disposedOnce_def dispose_returns)
    have "disposedOnce p (forceUpdate (snd (dispose st)))"
      using guarded_dispose [OF assms] d
      by (simp add: caught_def case_prod_beta disposedOnce_def forceUpdate_def)
    with c show ?thesis
      by (simp add: pulse_def rerun_not_array [OF False d] caught_def guarded_def)
  qed
qed

lemma guarded_advance:
  assumes "guarded p due st"
  shows "guarded p due (advance n st)" and "now (advance n st) = now st + n"
proof -
  let ?s = "st\<lparr>now := now st + n\<rparr>"
  have "guarded p due (advance n st) \<and> now (advance n st) = now st + n"
  proof (cases "disposedOnce p st")
    case True
    then have "disposedOnce p ?s"
      by (simp add: disposedOnce_def)
    from disposedOnce_fireTimers [OF this, of "timers ?s"] show ?thesis
      by (simp add: advance_def Let_def guarded_def)
  next
    case False
    with assms have g: "isMounted st = Some False" "\<not> unmountAction st" "nextComp st = 1"
      "closures st = [0 \<mapsto> p]"
      "\<forall>k. computationCleanup st = Some k \<longrightarrow> callCleanup k = None"
      "computation st = Some 0" "stopCalls st = []" "timers st = [(0, due)]" "now st < due"
      by (simp_all add: guarded_def)
    show ?thesis
    proof (cases "due \<le> now st + n")
      case True
      let ?t = "st\<lparr>now := now st + n, timers := []\<rparr>"
      have "disposedOnce p (caught (dispose ?t))" "now (caught (dispose ?t)) = now ?t"
        by (rule live_dispose; simp add: g)+
      with True g show ?thesis
        by (simp add: advance_def Let_def timeoutCallback_def guarded_def)
    next
      case False
      with g show ?thesis
        by (simp add: advance_def Let_def guarded_def)
    qed
  qed
  then show "guarded p due (advance n st)" and "now (advance n st) = now st + n"
    by simp_all
qed

lemma guarded_step:
  assumes "guarded p due st" and "abandoned e"
  shows "guarded p due (step env e st)"
proof (cases e)
  case (Pulse c)
  with guarded_pulse [OF assms(1)] show ?thesis by simp
next
  case (Invalidate c)
  with guarded_pulse [OF assms(1)] assms(1) show ?thesis by (simp add: invalidate_def)
next
  case (Advance n)
  with guarded_advance(1) [OF assms(1)] show ?thesis by simp
next
  case (SetSource d)
  with assms(1) show ?thesis by (simp add: guarded_def disposedOnce_def)
next
  case Unmount
  with assms(1) show ?thesis by (auto simp: unmount_def guarded_def disposedOnce_def)
qed (use assms(2) in \<open>simp_all add: abandoned_def\<close>)

lemma guarded_exec:
  "guarded p due st \<Longrightarrow> list_all abandoned es \<Longrightarrow> guarded p due (exec env es st)"
proof (induction es arbitrary: st)
  case Nil
  then show ?case by simp
next
  case (Cons e es)
  from Cons.prems have "guarded p due (step env e st)" "list_all abandoned es"
    by (simp_all add: guarded_step)
  with Cons.IH show ?case by simp
qed

text \<open>
  C4 (leak guard). In the browser, a run of the \<^verbatim>\<open>useMemo\<close> callback that returns
  while \<open>isMounted\<close> is not \<^verbatim>\<open>true\<close> schedules a timer due 50 time units later and stores
  its handle. After a first render pass at time \<open>t0\<close> with callbacks that return, if
  neither a commit nor another render pass follows, then whatever else happens no second
  computation is ever created, and from time \<open>t0 + 50\<close> on the computation has received
  its one \<open>stop\<close> and the slot is empty.
\<close>

theorem leak_guard_bound:
  "(\<not> isServer env \<and> isMounted st \<noteq> Some True \<and> fst (useMemoCallback env p st) = Done \<longrightarrow>
      timers (snd (useMemoCallback env p st)) = timers st @ [(nextTimer st, now st + 50)]
      \<and> disposeId (snd (useMemoCallback env p st)) = Some (nextTimer st))
   \<and> (\<not> isServer env \<and> neverThrows q \<and> cleanupReturns q \<and> list_all abandoned es \<longrightarrow>
      timers (render env q ((init d)\<lparr>now := t0\<rparr>)) = [(0, t0 + 50)]
      \<and> computation (render env q ((init d)\<lparr>now := t0\<rparr>)) = Some 0
      \<and> stopCalls (render env q ((init d)\<lparr>now := t0\<rparr>)) = []
      \<and> nextComp (exec env es (render env q ((init d)\<lparr>now := t0\<rparr>))) = 1
      \<and> (t0 + 50 \<le> now (exec env es (render env q ((init d)\<lparr>now := t0\<rparr>))) \<longrightarrow>
           computation (exec env es (render env q ((init d)\<lparr>now := t0\<rparr>))) = None
           \<and> stopCalls (exec env es (render env q ((init d)\<lparr>now := t0\<rparr>))) = [0]))"
proof (intro conjI impI)
  assume "\<not> isServer env \<and> isMounted st \<noteq> Some True \<and> fst (useMemoCallback env p st) = Done"
  then have a: "\<not> isServer env" "isMounted st \<noteq> Some True"
    "fst (useMemoCallback env p st) = Done"
    by simp_all
  from timer_scheduled [OF a]
  show "timers (snd (useMemoCallback env p st)) = timers st @ [(nextTimer st, now st + 50)]"
    and "disposeId (snd (useMemoCallback env p st)) = Some (nextTimer st)"
    by simp_all
next
  assume "\<not> isServer env \<and> neverThrows q \<and> cleanupReturns q \<and> list_all abandoned es"
  then have b: "\<not> isServer env" "neverThrows q" "cleanupReturns q" and es: "list_all abandoned es"
    by simp_all
  let ?r = "render env q ((init d)\<lparr>now := t0\<rparr>)"
  note f = first_render_guarded [OF b, where d = d and ?t0.0 = t0]
  from f show "timers ?r = [(0, t0 + 50)]" and "computation ?r = Some 0" and "stopCalls ?r = []"
    by simp_all
  note g = guarded_exec [OF f(1) es, where env = env]
  from g show "nextComp (exec env es ?r) = 1"
    by (auto simp: guarded_def disposedOnce_def)
  {
    assume "t0 + 50 \<le> now (exec env es ?r)"
    with g show "computation (exec env es ?r) = None"
      and "stopCalls (exec env es ?r) = [0]"
      by (auto simp: guarded_def disposedOnce_def)
  }
qed

theorem leak_guard_bound_witness:
  "timers (render browser (reader [1]) ((init 1)\<lparr>now := 7\<rparr>)) = [(0, 57)]
   \<and> computation (exec browser [Advance 49, Pulse 0]
                     (render browser (reader [1]) ((init 1)\<lparr>now := 7\<rparr>))) = Some 0
   \<and> now (exec browser [Advance 49, Pulse 0, Advance 1, Unmount, Invalidate 0]
             (render browser (reader [1]) ((init 1)\<lparr>now := 7\<rparr>))) = 57
   \<and> computation (exec browser [Advance 49, Pulse 0, Advance 1, Unmount, Invalidate 0]
                     (render browser (reader [1]) ((init 1)\<lparr>now := 7\<rparr>))) = None
   \<and> stopCalls (exec browser [Advance 49, Pulse 0, Advance 1, Unmount, Invalidate 0]
                   (render browser (reader [1]) ((init 1)\<lparr>now := 7\<rparr>))) = [0]
   \<and> nextComp (exec browser [Advance 49, Pulse 0, Advance 1, Unmount, Invalidate 0]
                  (render browser (reader [1]) ((init 1)\<lparr>now := 7\<rparr>))) = 1"
proof -
  have "neverThrows (reader [1])" "cleanupReturns (reader [1])"
    by (simp_all add: neverThrows_def cleanupReturns_def reader_def callCleanup_def)
  moreover have "list_all abandoned
      [Advance 49, Pulse 0, Advance 1, Unmount, Invalidate (0::nat) :: (int, int) event]"
    by (simp add: abandoned_def)
  ultimately show ?thesis
    using leak_guard_bound [of browser "(init 1)\<lparr>now := 7\<rparr>" "reader [1]" "reader [1]"
        "[Advance 49, Pulse 0, Advance 1, Unmount, Invalidate 0]" 1 7]
    by (simp add: hook_defs event_defs example_defs)
qed

subsection \<open>After the unmount\<close>

lemma liveInSlot_update [simp]:
  "liveInSlot (st\<lparr>isMounted := m\<rparr>) = liveInSlot st"
  "liveInSlot (st\<lparr>doDeferredRender := f\<rparr>) = liveInSlot st"
  "liveInSlot (st\<lparr>disposeId := i\<rparr>) = liveInSlot st"
  "liveInSlot (st\<lparr>committed := b\<rparr>) = liveInSlot st"
  "liveInSlot (st\<lparr>unmountAction := b\<rparr>) = liveInSlot st"
  "liveInSlot (st\<lparr>rendered := vs\<rparr>) = liveInSlot st"
  "liveInSlot (st\<lparr>thrown := es\<rparr>) = liveInSlot st"
  "liveInSlot (st\<lparr>memoDeps := ds\<rparr>) = liveInSlot st"
  "liveInSlot (st\<lparr>effectClosure := ec\<rparr>) = liveInSlot st"
  "liveInSlot (st\<lparr>timers := ts\<rparr>) = liveInSlot st"
  "liveInSlot (st\<lparr>now := t\<rparr>) = liveInSlot st"
  "liveInSlot (st\<lparr>source := d\<rparr>) = liveInSlot st"
  "liveInSlot (forceUpdate st) = liveInSlot st"
  "liveInSlot (clearTimeout i st) = liveInSlot st"
  "liveInSlot (setTimeout n st) = liveInSlot st"
  by (simp_all add: liveInSlot_def forceUpdate_def clearTimeout_def setTimeout_def)























end
